theory Spec2Isabelle
  imports Main "HOL-Library.Multiset"
begin

section \<open>The HTML-to-document translator of md\_to\_docx.py\<close>

text \<open>
  The development embeds \<^verbatim>\<open>MarkdownToDocxConverter.html_to_docx\<close> and its
  nested class \<^verbatim>\<open>HTMLToDocxParser\<close> (src/md\_to\_docx.py, lines 185--388).
  The parser is a push parser: Python's \<^verbatim>\<open>html.parser.HTMLParser.feed\<close>
  tokenises the fragment and calls \<^verbatim>\<open>handle_starttag\<close>,
  \<^verbatim>\<open>handle_endtag\<close> and \<^verbatim>\<open>handle_data\<close> in document order.
  The tokeniser belongs to the standard library, so the model starts at the
  event stream it delivers.  The destination is a python-docx document; the
  few operations the parser calls on it are modelled on a value that records
  what those operations build (paragraphs with runs, tables with rows of
  cells).
\<close>

subsection \<open>Python strings\<close>

text \<open>
  A \<^typ>\<open>char\<close> stands for the code point of the same number, so the model
  covers the texts of code points below 256.  \<^verbatim>\<open>str.strip()\<close> removes
  leading and trailing characters for which \<^verbatim>\<open>str.isspace()\<close> holds;
  in that range these are 9--13, 28--32, 133 and 160.
\<close>

definition isspace :: "char \<Rightarrow> bool" where
  "isspace c =
     (let n = (of_char c :: nat)
      in (9 \<le> n \<and> n \<le> 13) \<or> (28 \<le> n \<and> n \<le> 32) \<or> n = 133 \<or> n = 160)"

definition strip :: "string \<Rightarrow> string" where
  "strip s = rev (dropWhile isspace (rev (dropWhile isspace s)))"

text \<open>\<^verbatim>\<open>s.startswith(p)\<close> and the substring test \<^verbatim>\<open>sub in s\<close>.\<close>

fun startswith :: "string \<Rightarrow> string \<Rightarrow> bool" where
  "startswith s [] = True"
| "startswith [] (p # ps) = False"
| "startswith (c # cs) (p # ps) = (c = p \<and> startswith cs ps)"

fun str_contains :: "string \<Rightarrow> string \<Rightarrow> bool" where
  "str_contains sub [] = (sub = [])"
| "str_contains sub (c # cs) = (startswith (c # cs) sub \<or> str_contains sub cs)"

subsection \<open>The document the parser builds\<close>

text \<open>
  Raw property elements the parser appends with \<^verbatim>\<open>OxmlElement\<close>:
  a shading \<^verbatim>\<open>w:shd\<close> (val, color, fill), a border group
  \<^verbatim>\<open>w:pBdr\<close> holding one \<^verbatim>\<open>w:left\<close> (val, sz, space, color) and an
  indent \<^verbatim>\<open>w:ind\<close> (left).
\<close>

datatype oxml =
    Shd string string string
  | PBdr_left string string string string
  | Ind_left string

record run =
  run_text :: string
  font_name :: "string option"
  font_size :: "nat option"
  font_color :: "(nat \<times> nat \<times> nat) option"
  rPr :: "oxml list"

datatype pstyle = Default_Style | List_Bullet | Title | Heading nat

record par =
  p_style :: pstyle
  p_runs :: "run list"
  pPr :: "oxml list"

text \<open>
  A table has a grid of \<open>columns\<close> columns and a list of rows; a row is the
  list of its cells.  A cell of this program always holds exactly one
  paragraph (python-docx creates a cell with one empty paragraph, and the
  setter \<^verbatim>\<open>cell.text\<close> leaves one paragraph), so a cell is that paragraph.
  Column and cell widths (always 1.5 inch here) are left out.
\<close>

record table =
  tbl_style :: "string option"
  columns :: nat
  rows :: "par list list"

datatype block = Para par | Tbl table

text \<open>
  The document is the list of the blocks of its body.  It is a document made
  from the default template of python-docx, as the \<^verbatim>\<open>Document()\<close> of
  the converter is: the styles the parser names ("List Bullet",
  "Table Grid", "Title", "Heading 1" to "Heading 9") are there, so that
  naming one raises nothing.
\<close>

type_synonym document = "block list"

text \<open>
  Object references.  The body only grows at its end, a table's rows only
  grow at the end and a row's cells only grow at the end, so an object is
  named by its position: a body paragraph by its index in the body, a table
  by its index in the body, a row by table and row index, a cell (and its
  paragraph) by table, row and cell index.
\<close>

datatype pref = BodyPara nat | CellPara nat nat nat

datatype error = TypeError | AttributeError | ValueError

definition empty_paragraph :: par where
  "empty_paragraph = \<lparr>p_style = Default_Style, p_runs = [], pPr = []\<rparr>"

definition plain_run :: "string \<Rightarrow> run" where
  "plain_run t = \<lparr>run_text = t, font_name = None, font_size = None, font_color = None, rPr = []\<rparr>"

definition empty_table :: table where
  "empty_table = \<lparr>tbl_style = None, columns = 0, rows = []\<rparr>"

text \<open>\<^verbatim>\<open>doc.add_paragraph(style=...)\<close>: a new empty paragraph at the end of the body.\<close>

definition add_paragraph :: "document \<Rightarrow> pstyle \<Rightarrow> document \<times> pref" where
  "add_paragraph d st = (d @ [Para (empty_paragraph\<lparr>p_style := st\<rparr>)], BodyPara (length d))"

text \<open>
  The text of a run is stored in XML.  The library refuses, with ValueError
  ("All strings must be XML compatible"), a text holding a control character:
  a code point 0 to 8, 11, 12 or 14 to 31.  Tab, line feed and carriage return
  are accepted (python-docx stores a tab as \<^verbatim>\<open>w:tab\<close> and a line feed or
  a carriage return as \<^verbatim>\<open>w:br\<close>; the model keeps the text as it was given).
\<close>

definition control_char :: "char \<Rightarrow> bool" where
  "control_char c =
     (let n = (of_char c :: nat) in n < 9 \<or> n = 11 \<or> n = 12 \<or> (14 \<le> n \<and> n < 32))"

definition xml_compatible :: "string \<Rightarrow> bool" where
  "xml_compatible t = list_all (\<lambda>c. \<not> control_char c) t"

text \<open>
  \<^verbatim>\<open>doc.add_heading(text, level)\<close>: python-docx raises ValueError unless
  \<open>0 \<le> level \<le> 9\<close>; otherwise it adds a paragraph of style "Title" (level 0)
  or "Heading level" and, when the text is not empty, one run with the text,
  which raises ValueError when the text holds a control character.
\<close>

definition add_heading :: "document \<Rightarrow> string \<Rightarrow> nat \<Rightarrow> error + document" where
  "add_heading d t level =
     (if level > 9 then Inl ValueError
      else if \<not> xml_compatible t then Inl ValueError
      else Inr (d @ [Para \<lparr>p_style = (if level = 0 then Title else Heading level),
                             p_runs = (if t = [] then [] else [plain_run t]),
                             pPr = []\<rparr>]))"

text \<open>\<^verbatim>\<open>doc.add_table(rows=0, cols=0)\<close> followed by \<^verbatim>\<open>table.style = 'Table Grid'\<close>.\<close>

definition add_table :: "document \<Rightarrow> document \<times> nat" where
  "add_table d = (d @ [Tbl (empty_table\<lparr>tbl_style := Some ''Table Grid''\<rparr>)], length d)"

text \<open>\<^verbatim>\<open>table.add_row()\<close>: one new cell for each grid column.\<close>

definition add_row :: "table \<Rightarrow> table" where
  "add_row t = t\<lparr>rows := rows t @ [replicate (columns t) empty_paragraph]\<rparr>"

text \<open>\<^verbatim>\<open>table.add_column(width)\<close>: one more grid column and one new cell at the end of every row.\<close>

definition add_column :: "table \<Rightarrow> table" where
  "add_column t = t\<lparr>columns := Suc (columns t), rows := map (\<lambda>r. r @ [empty_paragraph]) (rows t)\<rparr>"

definition table_at :: "document \<Rightarrow> nat \<Rightarrow> table" where
  "table_at d ti =
     (if ti < length d then (case d ! ti of Tbl t \<Rightarrow> t | Para _ \<Rightarrow> empty_table) else empty_table)"

definition map_table :: "nat \<Rightarrow> (table \<Rightarrow> table) \<Rightarrow> document \<Rightarrow> document" where
  "map_table ti f d =
     (if ti < length d then (case d ! ti of Tbl t \<Rightarrow> d[ti := Tbl (f t)] | Para _ \<Rightarrow> d) else d)"

text \<open>\<^verbatim>\<open>row.cells\<close> of the row \<open>ri\<close> of the table at \<open>ti\<close>.\<close>

definition row_cells :: "document \<Rightarrow> nat \<Rightarrow> nat \<Rightarrow> par list" where
  "row_cells d ti ri = (let t = table_at d ti in if ri < length (rows t) then rows t ! ri else [])"

definition map_cell :: "nat \<Rightarrow> nat \<Rightarrow> (par \<Rightarrow> par) \<Rightarrow> table \<Rightarrow> table" where
  "map_cell ri ci f t =
     (if ri < length (rows t) \<and> ci < length (rows t ! ri)
      then t\<lparr>rows := (rows t)[ri := (rows t ! ri)[ci := f (rows t ! ri ! ci)]]\<rparr>
      else t)"

definition map_paragraph :: "pref \<Rightarrow> (par \<Rightarrow> par) \<Rightarrow> document \<Rightarrow> document" where
  "map_paragraph p f d =
     (case p of
        BodyPara i \<Rightarrow>
          (if i < length d then (case d ! i of Para q \<Rightarrow> d[i := Para (f q)] | Tbl _ \<Rightarrow> d) else d)
      | CellPara ti ri ci \<Rightarrow> map_table ti (map_cell ri ci f) d)"

text \<open>
  \<^verbatim>\<open>paragraph.add_run(text)\<close> with the run's formatting already set (the
  code sets it on the run that \<^verbatim>\<open>add_run\<close> returns, which cannot raise).
  It raises ValueError when the text holds a control character.
\<close>

definition add_run :: "pref \<Rightarrow> run \<Rightarrow> document \<Rightarrow> error + document" where
  "add_run p r d =
     (if xml_compatible (run_text r)
      then Inr (map_paragraph p (\<lambda>q. q\<lparr>p_runs := p_runs q @ [r]\<rparr>) d)
      else Inl ValueError)"

text \<open>Appending elements to the paragraph's \<^verbatim>\<open>w:pPr\<close>.\<close>

definition append_pPr :: "pref \<Rightarrow> oxml list \<Rightarrow> document \<Rightarrow> document" where
  "append_pPr p xs d = map_paragraph p (\<lambda>q. q\<lparr>pPr := pPr q @ xs\<rparr>) d"

text \<open>
  \<^verbatim>\<open>cell.text = ''\<close>: python-docx removes the cell's content and puts in one
  new paragraph with one run of the given (here empty) text.
\<close>

definition cleared_cell :: par where
  "cleared_cell = empty_paragraph\<lparr>p_runs := [plain_run []]\<rparr>"

definition set_cell_text_empty :: "nat \<Rightarrow> nat \<Rightarrow> nat \<Rightarrow> document \<Rightarrow> document" where
  "set_cell_text_empty ti ri ci d = map_table ti (map_cell ri ci (\<lambda>_. cleared_cell)) d"

subsection \<open>The parser state\<close>

text \<open>
  The attributes set by \<^verbatim>\<open>__init__\<close>, in its order, and
  \<^verbatim>\<open>current_cell_index\<close>, which \<^verbatim>\<open>__init__\<close> does not set: it is
  \<open>None\<close> until the first row start inside a table creates it (the code
  reads it with \<^verbatim>\<open>getattr(..., 0)\<close> and tests it with \<^verbatim>\<open>hasattr\<close>).
  It starts at 0 and is only incremented, so it is a \<^typ>\<open>nat\<close>;
  \<^verbatim>\<open>list_level\<close> is decremented too and is an \<^typ>\<open>int\<close>.
\<close>

record parser =
  doc :: document
  current_paragraph :: "pref option"
  in_code :: bool
  in_heading :: bool
  heading_level :: nat
  list_level :: int
  text_buffer :: string
  current_table :: "nat option"
  current_row :: "(nat \<times> nat) option"
  current_cell :: "(nat \<times> nat \<times> nat) option"
  in_table_header :: bool
  in_code_block :: bool
  current_language :: "string option"
  current_cell_index :: "nat option"

definition parser_init :: "document \<Rightarrow> parser" where
  "parser_init document =
     \<lparr>doc = document, current_paragraph = None, in_code = False, in_heading = False,
      heading_level = 1, list_level = 0, text_buffer = [],
      current_table = None, current_row = None, current_cell = None,
      in_table_header = False, in_code_block = False, current_language = None,
      current_cell_index = None\<rparr>"

subsection \<open>flush\_text and flush\_text\_as\_heading\<close>

definition code_block_run :: "string \<Rightarrow> run" where
  "code_block_run t =
     \<lparr>run_text = t, font_name = Some ''Courier New'', font_size = Some 9,
      font_color = Some (33, 37, 41), rPr = []\<rparr>"

definition code_block_pPr :: "oxml list" where
  "code_block_pPr =
     [Shd ''clear'' ''auto'' ''E9ECEF'',
      PBdr_left ''single'' ''12'' ''4'' ''569CD6'',
      Ind_left ''340'']"

definition inline_code_run :: "string \<Rightarrow> run" where
  "inline_code_run t =
     \<lparr>run_text = t, font_name = Some ''Courier New'', font_size = Some 9,
      font_color = Some (86, 156, 214), rPr = [Shd ''clear'' ''auto'' ''F5F5F5'']\<rparr>"

text \<open>
  \<^verbatim>\<open>flush_text\<close>.  A buffer that is not blank goes to
  \<^verbatim>\<open>add_run\<close>, after a paragraph has been added when none is current;
  a ValueError of \<^verbatim>\<open>add_run\<close> leaves the method before the buffer is
  emptied and ends the whole call.
\<close>

definition flush_text :: "parser \<Rightarrow> error + parser" where
  "flush_text s =
     (if strip (text_buffer s) \<noteq> [] then
        (let (d, p) = (case current_paragraph s of
                         None \<Rightarrow> add_paragraph (doc s) Default_Style
                       | Some p \<Rightarrow> (doc s, p))
         in (case (if in_code s then
                     (if in_code_block s
                      then map_sum id (append_pPr p code_block_pPr)
                             (add_run p (code_block_run (text_buffer s)) d)
                      else add_run p (inline_code_run (text_buffer s)) d)
                   else add_run p (plain_run (text_buffer s)) d) of
               Inl e \<Rightarrow> Inl e
             | Inr d' \<Rightarrow> Inr (s\<lparr>doc := d', current_paragraph := Some p, text_buffer := []\<rparr>)))
      else Inr (s\<lparr>text_buffer := []\<rparr>))"

definition flush_text_as_heading :: "parser \<Rightarrow> error + parser" where
  "flush_text_as_heading s =
     (if strip (text_buffer s) \<noteq> [] then
        (case add_heading (doc s) (strip (text_buffer s)) (heading_level s) of
           Inl e \<Rightarrow> Inl e
         | Inr d \<Rightarrow> Inr (s\<lparr>doc := d, text_buffer := [], current_paragraph := None\<rparr>))
      else Inr (s\<lparr>text_buffer := [], current_paragraph := None\<rparr>))"

subsection \<open>handle\_starttag\<close>

type_synonym attrs = "(string \<times> string option) list"

definition heading_tags :: "string list" where
  "heading_tags = [''h1'', ''h2'', ''h3'', ''h4'', ''h5'', ''h6'']"

text \<open>\<^verbatim>\<open>int(tag[1])\<close> for a tag whose second character is a decimal digit.\<close>

definition digit_value :: "char \<Rightarrow> nat" where
  "digit_value c = of_char c - 48"

text \<open>
  The \<^verbatim>\<open>for\<close> loop of the \<^verbatim>\<open>div\<close> branch.  HTMLParser gives an
  attribute written without a value the value \<^verbatim>\<open>None\<close>, and
  \<^verbatim>\<open>'codehilite' in None\<close> raises TypeError.
\<close>

fun start_div :: "parser \<Rightarrow> attrs \<Rightarrow> error + parser" where
  "start_div s [] = Inr s"
| "start_div s ((attr_name, attr_value) # rest) =
     (if attr_name = ''class'' then
        (case attr_value of
           None \<Rightarrow> Inl TypeError
         | Some v \<Rightarrow>
             (if str_contains ''codehilite'' v then
                (case flush_text s of
                   Inl e \<Rightarrow> Inl e
                 | Inr s1 \<Rightarrow>
                     (let (d, p) = add_paragraph (doc s1) Default_Style
                      in Inr (s1\<lparr>in_code_block := True, doc := d, current_paragraph := Some p\<rparr>)))
              else start_div s rest))
      else start_div s rest)"

text \<open>
  The \<^verbatim>\<open>while len(self.current_table.columns) <= self.current_cell_index\<close>
  loop of the cell branch.
\<close>

function ensure_columns :: "table \<Rightarrow> nat \<Rightarrow> table" where
  "ensure_columns t idx = (if columns t \<le> idx then ensure_columns (add_column t) idx else t)"
  by pat_completeness auto
termination
  by (relation "measure (\<lambda>(t, idx). Suc idx - columns t)") (auto simp: add_column_def)

declare ensure_columns.simps [simp del]

text \<open>
  The cell branch (\<^verbatim>\<open>td\<close>, \<^verbatim>\<open>th\<close>).  With a current row but no
  current table, \<^verbatim>\<open>self.current_table.columns\<close> would raise AttributeError.
\<close>

definition start_cell :: "parser \<Rightarrow> error + parser" where
  "start_cell s =
     (case current_row s of
        None \<Rightarrow> Inr s
      | Some (rt, ri) \<Rightarrow>
          (let idx = (case current_cell_index s of None \<Rightarrow> 0 | Some i \<Rightarrow> i)
           in (case current_table s of
                 None \<Rightarrow> Inl AttributeError
               | Some ti \<Rightarrow>
                   (let d1 = map_table ti (\<lambda>t. ensure_columns t idx) (doc s);
                        s1 = s\<lparr>current_cell_index := Some idx, doc := d1\<rparr>
                    in if idx < length (row_cells d1 rt ri) then
                         Inr (s1\<lparr>doc := set_cell_text_empty rt ri idx d1,
                                  current_cell := Some (rt, ri, idx),
                                  current_paragraph := Some (CellPara rt ri idx)\<rparr>)
                       else Inr s1))))"

text \<open>
  In the \<^verbatim>\<open>pre\<close> branch inside a code block the assignments to
  \<^verbatim>\<open>space_before\<close> and \<^verbatim>\<open>space_after\<close> set attributes of the
  Python proxy object of the paragraph, not of the document, so they leave
  the modelled state as it is.
\<close>

definition handle_starttag :: "parser \<Rightarrow> string \<Rightarrow> attrs \<Rightarrow> error + parser" where
  "handle_starttag s tag attrs =
     (if tag \<in> set heading_tags then
        (case flush_text s of
           Inl e \<Rightarrow> Inl e
         | Inr s1 \<Rightarrow> Inr (s1\<lparr>in_heading := True, heading_level := digit_value (tag ! 1)\<rparr>))
      else if tag = ''p'' then
        (case flush_text s of
           Inl e \<Rightarrow> Inl e
         | Inr s1 \<Rightarrow>
             (let (d, p) = add_paragraph (doc s1) Default_Style
              in Inr (s1\<lparr>doc := d, current_paragraph := Some p\<rparr>)))
      else if tag = ''code'' then
        (case flush_text s of
           Inl e \<Rightarrow> Inl e
         | Inr s1 \<Rightarrow> Inr (s1\<lparr>in_code := True\<rparr>))
      else if tag = ''div'' then
        start_div s attrs
      else if tag = ''pre'' then
        (if in_code_block s then Inr (s\<lparr>in_code := True\<rparr>)
         else (case flush_text s of
                 Inl e \<Rightarrow> Inl e
               | Inr s1 \<Rightarrow>
                   (let (d, p) = add_paragraph (doc s1) Default_Style
                    in Inr (s1\<lparr>doc := d, current_paragraph := Some p\<rparr>))))
      else if tag \<in> set [''ul'', ''ol''] then
        (case flush_text s of
           Inl e \<Rightarrow> Inl e
         | Inr s1 \<Rightarrow> Inr (s1\<lparr>list_level := list_level s1 + 1\<rparr>))
      else if tag = ''li'' then
        (case flush_text s of
           Inl e \<Rightarrow> Inl e
         | Inr s1 \<Rightarrow>
             (let (d, p) = add_paragraph (doc s1) List_Bullet
              in Inr (s1\<lparr>doc := d, current_paragraph := Some p\<rparr>)))
      else if tag = ''table'' then
        (case flush_text s of
           Inl e \<Rightarrow> Inl e
         | Inr s1 \<Rightarrow>
             (let (d, ti) = add_table (doc s1)
              in Inr (s1\<lparr>doc := d, current_table := Some ti\<rparr>)))
      else if tag = ''thead'' then
        Inr (s\<lparr>in_table_header := True\<rparr>)
      else if tag = ''tbody'' then
        Inr (s\<lparr>in_table_header := False\<rparr>)
      else if tag = ''tr'' then
        (case current_table s of
           None \<Rightarrow> Inr s
         | Some ti \<Rightarrow>
             Inr (s\<lparr>doc := map_table ti add_row (doc s),
                     current_row := Some (ti, length (rows (table_at (doc s) ti))),
                     current_cell_index := Some 0\<rparr>))
      else if tag \<in> set [''td'', ''th''] then
        start_cell s
      else if tag = ''br'' then
        Inr (s\<lparr>text_buffer := text_buffer s @ [CHR 0x0A]\<rparr>)
      else if tag = ''span'' then
        Inr s
      else Inr s)"

subsection \<open>handle\_endtag, handle\_data and the driver\<close>

definition handle_endtag :: "parser \<Rightarrow> string \<Rightarrow> error + parser" where
  "handle_endtag s tag =
     (if tag \<in> set heading_tags then
        (case flush_text_as_heading s of
           Inl e \<Rightarrow> Inl e
         | Inr s1 \<Rightarrow> Inr (s1\<lparr>in_heading := False\<rparr>))
      else if tag = ''p'' then
        flush_text s
      else if tag = ''code'' then
        (case flush_text s of
           Inl e \<Rightarrow> Inl e
         | Inr s1 \<Rightarrow> Inr (s1\<lparr>in_code := False\<rparr>))
      else if tag = ''pre'' then
        (if in_code_block s then
           (case flush_text s of
              Inl e \<Rightarrow> Inl e
            | Inr s1 \<Rightarrow> Inr (s1\<lparr>in_code := False\<rparr>))
         else flush_text s)
      else if tag = ''div'' then
        (if in_code_block s then Inr (s\<lparr>in_code_block := False, current_paragraph := None\<rparr>)
         else Inr s)
      else if tag \<in> set [''ul'', ''ol''] then
        Inr (s\<lparr>list_level := list_level s - 1\<rparr>)
      else if tag = ''li'' then
        flush_text s
      else if tag = ''table'' then
        Inr (s\<lparr>current_table := None, current_row := None, current_cell := None\<rparr>)
      else if tag = ''tr'' then
        Inr (s\<lparr>current_row := None\<rparr>)
      else if tag \<in> set [''td'', ''th''] then
        (case flush_text s of
           Inl e \<Rightarrow> Inl e
         | Inr s1 \<Rightarrow>
             (let s2 = (case current_cell_index s1 of
                          None \<Rightarrow> s1
                        | Some i \<Rightarrow> s1\<lparr>current_cell_index := Some (i + 1)\<rparr>)
              in Inr (s2\<lparr>current_cell := None, current_paragraph := None\<rparr>)))
      else Inr s)"

definition handle_data :: "parser \<Rightarrow> string \<Rightarrow> parser" where
  "handle_data s data = s\<lparr>text_buffer := text_buffer s @ data\<rparr>"

text \<open>
  The events \<^verbatim>\<open>feed\<close> delivers.  A raise in a handler ends the call:
  the remaining events are not handled.
\<close>

datatype event = StartTag string attrs | EndTag string | Data string

fun handle :: "parser \<Rightarrow> event \<Rightarrow> error + parser" where
  "handle s (StartTag tag attrs) = handle_starttag s tag attrs"
| "handle s (EndTag tag) = handle_endtag s tag"
| "handle s (Data data) = Inr (handle_data s data)"

fun feed :: "parser \<Rightarrow> event list \<Rightarrow> error + parser" where
  "feed s [] = Inr s"
| "feed s (e # es) = (case handle s e of Inl err \<Rightarrow> Inl err | Inr s' \<Rightarrow> feed s' es)"

text \<open>
  \<^verbatim>\<open>html_to_docx\<close>: a new parser on the given document, the events of the
  fragment, and a last \<^verbatim>\<open>flush_text\<close>.  The result is the document as
  the call leaves it, or the error it raises.
\<close>

definition html_to_docx :: "event list \<Rightarrow> document \<Rightarrow> error + document" where
  "html_to_docx html_content document =
     (case feed (parser_init document) html_content of
        Inl err \<Rightarrow> Inl err
      | Inr s \<Rightarrow> map_sum id doc (flush_text s))"

text \<open>The converter calls it on a new, empty \<^verbatim>\<open>Document()\<close>.\<close>

definition translate :: "event list \<Rightarrow> error + document" where
  "translate html_content = html_to_docx html_content []"

section \<open>Notions used in the statements\<close>

text \<open>The non-whitespace characters of a text, as a multiset.\<close>

definition nonws :: "string \<Rightarrow> char multiset" where
  "nonws t = mset (filter (\<lambda>c. \<not> isspace c) t)"

text \<open>
  Documents only grow: \<open>ext d d'\<close> says that \<open>d'\<close> has every block of \<open>d\<close> at
  its place, a paragraph where \<open>d\<close> has a paragraph, and a table with at least
  as many columns, rows and cells in each row where \<open>d\<close> has a table.
\<close>

definition tgrows :: "table \<Rightarrow> table \<Rightarrow> bool" where
  "tgrows t t' =
     (columns t \<le> columns t' \<and> length (rows t) \<le> length (rows t') \<and>
      (\<forall>r<length (rows t). length (rows t ! r) \<le> length (rows t' ! r)))"

fun grows :: "block \<Rightarrow> block \<Rightarrow> bool" where
  "grows (Para _) (Para _) = True"
| "grows (Tbl t) (Tbl t') = tgrows t t'"
| "grows _ _ = False"

definition ext :: "document \<Rightarrow> document \<Rightarrow> bool" where
  "ext d d' = (length d \<le> length d' \<and> (\<forall>i<length d. grows (d ! i) (d' ! i)))"

text \<open>A reference is valid in a document when the object it names is there.\<close>

definition valid_pref :: "document \<Rightarrow> pref \<Rightarrow> bool" where
  "valid_pref d p =
     (case p of
        BodyPara i \<Rightarrow> i < length d \<and> (case d ! i of Para _ \<Rightarrow> True | Tbl _ \<Rightarrow> False)
      | CellPara ti ri ci \<Rightarrow>
          ti < length d \<and>
          (case d ! ti of
             Tbl t \<Rightarrow> ri < length (rows t) \<and> ci < length (rows t ! ri)
           | Para _ \<Rightarrow> False))"

text \<open>
  The invariant of the parser state: the current paragraph, when there is
  one, is in the document; there is a current table whenever there is a
  current row; and the heading level is one \<^verbatim>\<open>add_heading\<close> accepts.
\<close>

fun valid_current :: "document \<Rightarrow> pref option \<Rightarrow> bool" where
  "valid_current d None = True"
| "valid_current d (Some p) = valid_pref d p"

definition parser_ok :: "parser \<Rightarrow> bool" where
  "parser_ok s =
     (valid_current (doc s) (current_paragraph s) \<and>
      (current_row s = None \<or> current_table s \<noteq> None) \<and>
      heading_level s \<le> 9)"

text \<open>
  \<^verbatim>\<open>flush_text\<close> raises in one case only: the buffer is not blank and
  holds a control character.  \<open>flushed s\<close> is the state it returns in every
  other case, with \<open>put_run\<close> for an \<^verbatim>\<open>add_run\<close> that returns, and
  \<open>after_flush s f\<close> is a flush followed by the update \<open>f\<close>.
\<close>

definition flush_raises :: "parser \<Rightarrow> bool" where
  "flush_raises s = (strip (text_buffer s) \<noteq> [] \<and> \<not> xml_compatible (text_buffer s))"

definition put_run :: "pref \<Rightarrow> run \<Rightarrow> document \<Rightarrow> document" where
  "put_run p r d = map_paragraph p (\<lambda>q. q\<lparr>p_runs := p_runs q @ [r]\<rparr>) d"

definition flushed :: "parser \<Rightarrow> parser" where
  "flushed s =
     (if strip (text_buffer s) \<noteq> [] then
        (let (d, p) = (case current_paragraph s of
                         None \<Rightarrow> add_paragraph (doc s) Default_Style
                       | Some p \<Rightarrow> (doc s, p));
             d' = (if in_code s then
                     (if in_code_block s
                      then append_pPr p code_block_pPr (put_run p (code_block_run (text_buffer s)) d)
                      else put_run p (inline_code_run (text_buffer s)) d)
                   else put_run p (plain_run (text_buffer s)) d)
         in s\<lparr>doc := d', current_paragraph := Some p, text_buffer := []\<rparr>)
      else s\<lparr>text_buffer := []\<rparr>)"

definition after_flush :: "parser \<Rightarrow> (parser \<Rightarrow> parser) \<Rightarrow> error + parser" where
  "after_flush s f = (if flush_raises s then Inl ValueError else Inr (f (flushed s)))"

text \<open>The paragraph a valid reference names.\<close>

definition par_at :: "document \<Rightarrow> pref \<Rightarrow> par" where
  "par_at d p =
     (case p of
        BodyPara i \<Rightarrow> (case d ! i of Para q \<Rightarrow> q | Tbl _ \<Rightarrow> empty_paragraph)
      | CellPara ti ri ci \<Rightarrow> rows (table_at d ti) ! ri ! ci)"

text \<open>
  What a flush with a non-blank buffer writes: the paragraph it writes to as
  it is before the flush (a new empty one when there is no current
  paragraph), the run it adds, and the elements it appends to the properties
  of that paragraph.
\<close>

definition flush_target :: "parser \<Rightarrow> par" where
  "flush_target s =
     (case current_paragraph s of None \<Rightarrow> empty_paragraph | Some p \<Rightarrow> par_at (doc s) p)"

definition flushed_run :: "parser \<Rightarrow> run" where
  "flushed_run s =
     (if in_code s then
        (if in_code_block s then code_block_run (text_buffer s)
         else inline_code_run (text_buffer s))
      else plain_run (text_buffer s))"

definition flushed_pPr :: "parser \<Rightarrow> oxml list" where
  "flushed_pPr s = (if in_code s \<and> in_code_block s then code_block_pPr else [])"

text \<open>
  The parser state without two of the fields that are written and never
  read, \<^verbatim>\<open>list_level\<close> and \<^verbatim>\<open>in_table_header\<close>.
\<close>

definition forget :: "parser \<Rightarrow> parser" where
  "forget s = s\<lparr>list_level := 0, in_table_header := False\<rparr>"

text \<open>
  What a \<^verbatim>\<open>flush_text\<close> that returns makes of a non-blank buffer, as a function of
  the five fields it reads: the new document and the paragraph written to.
\<close>

definition flush_result ::
  "document \<Rightarrow> pref option \<Rightarrow> bool \<Rightarrow> bool \<Rightarrow> string \<Rightarrow> document \<times> pref" where
  "flush_result d cp c cb t =
     (let (d0, p) = (case cp of None \<Rightarrow> add_paragraph d Default_Style | Some p \<Rightarrow> (d, p))
      in ((if c then
             (if cb then append_pPr p code_block_pPr (put_run p (code_block_run t) d0)
              else put_run p (inline_code_run t) d0)
           else put_run p (plain_run t) d0), p))"

text \<open>What an event adds to \<^verbatim>\<open>list_level\<close>.\<close>

fun list_delta :: "event \<Rightarrow> int" where
  "list_delta (StartTag tag attrs) = (if tag = ''ul'' \<or> tag = ''ol'' then 1 else 0)"
| "list_delta (EndTag tag) = (if tag = ''ul'' \<or> tag = ''ol'' then - 1 else 0)"
| "list_delta (Data data) = 0"

text \<open>
  Replacing a head-section tag by the body-section tag, and the test for a
  head-section tag.
\<close>

fun thead_to_tbody :: "event \<Rightarrow> event" where
  "thead_to_tbody (StartTag tag attrs) = StartTag (if tag = ''thead'' then ''tbody'' else tag) attrs"
| "thead_to_tbody (EndTag tag) = EndTag (if tag = ''thead'' then ''tbody'' else tag)"
| "thead_to_tbody (Data data) = Data data"

fun is_thead :: "event \<Rightarrow> bool" where
  "is_thead (StartTag tag attrs) = (tag = ''thead'')"
| "is_thead (EndTag tag) = (tag = ''thead'')"
| "is_thead (Data data) = False"

text \<open>
  The non-whitespace characters held by the runs of a paragraph, of a table,
  of a block and of a document, as multisets: every occurrence counts.
\<close>

definition par_chars :: "par \<Rightarrow> char multiset" where
  "par_chars p = sum_list (map (\<lambda>r. nonws (run_text r)) (p_runs p))"

definition table_chars :: "table \<Rightarrow> char multiset" where
  "table_chars t = sum_list (map (\<lambda>row. sum_list (map par_chars row)) (rows t))"

fun block_chars :: "block \<Rightarrow> char multiset" where
  "block_chars (Para p) = par_chars p"
| "block_chars (Tbl t) = table_chars t"

definition doc_chars :: "document \<Rightarrow> char multiset" where
  "doc_chars d = sum_list (map block_chars d)"

text \<open>
  The characters in flight: those of the document and those of the buffer.
\<close>

definition held_chars :: "parser \<Rightarrow> char multiset" where
  "held_chars s = doc_chars (doc s) + nonws (text_buffer s)"

text \<open>The non-whitespace characters an event delivers as character data.\<close>

fun data_chars :: "event \<Rightarrow> char multiset" where
  "data_chars (Data data) = nonws data"
| "data_chars (StartTag tag attrs) = {#}"
| "data_chars (EndTag tag) = {#}"

text \<open>
  The characters a start-cell event deletes: \<^verbatim>\<open>cell.text = ''\<close> removes
  what the cell it opens holds.  \<open>opened_cell_chars s\<close> are the characters of
  the cell that a start-cell event handled in state \<open>s\<close> opens (none when it
  opens no cell), \<open>cleared_chars s e\<close> those that the event \<open>e\<close> deletes in
  state \<open>s\<close>, and \<open>discarded s es\<close> those that the events \<open>es\<close>, handled
  from state \<open>s\<close>, delete altogether.
\<close>

definition opened_cell_chars :: "parser \<Rightarrow> char multiset" where
  "opened_cell_chars s =
     (case current_row s of
        None \<Rightarrow> {#}
      | Some (rt, ri) \<Rightarrow>
          (case current_table s of
             None \<Rightarrow> {#}
           | Some ti \<Rightarrow>
               (let idx = (case current_cell_index s of None \<Rightarrow> 0 | Some i \<Rightarrow> i);
                    cells = row_cells (map_table ti (\<lambda>t. ensure_columns t idx) (doc s)) rt ri
                in if idx < length cells then par_chars (cells ! idx) else {#})))"

fun cleared_chars :: "parser \<Rightarrow> event \<Rightarrow> char multiset" where
  "cleared_chars s (StartTag tag attrs) =
     (if tag = ''td'' \<or> tag = ''th'' then opened_cell_chars s else {#})"
| "cleared_chars s (EndTag tag) = {#}"
| "cleared_chars s (Data data) = {#}"

fun discarded :: "parser \<Rightarrow> event list \<Rightarrow> char multiset" where
  "discarded s [] = {#}"
| "discarded s (e # es) =
     cleared_chars s e + (case handle s e of Inl _ \<Rightarrow> {#} | Inr s' \<Rightarrow> discarded s' es)"

text \<open>The start-cell events.\<close>

fun is_start_cell :: "event \<Rightarrow> bool" where
  "is_start_cell (StartTag tag attrs) = (tag = ''td'' \<or> tag = ''th'')"
| "is_start_cell (EndTag tag) = False"
| "is_start_cell (Data data) = False"



section \<open>Basic facts\<close>

lemma feed_append:
  "feed s (xs @ ys) = (case feed s xs of Inl err \<Rightarrow> Inl err | Inr s' \<Rightarrow> feed s' ys)"
  by (induction xs arbitrary: s) (auto split: sum.splits)

subsection \<open>Stripping and whitespace\<close>

lemma filter_dropWhile_not: "filter (\<lambda>c. \<not> P c) (dropWhile P xs) = filter (\<lambda>c. \<not> P c) xs"
  by (induction xs) auto

lemma dropWhile_all_Nil:
  assumes "\<forall>c\<in>set (dropWhile P xs). P c"
  shows "dropWhile P xs = []"
proof (rule ccontr)
  assume ne: "dropWhile P xs \<noteq> []"
  then have "\<not> P (hd (dropWhile P xs))" by (rule hd_dropWhile)
  moreover from ne have "hd (dropWhile P xs) \<in> set (dropWhile P xs)" by (rule hd_in_set)
  ultimately show False using assms by blast
qed

lemma strip_Nil_iff: "strip s = [] \<longleftrightarrow> (\<forall>c\<in>set s. isspace c)"
proof
  assume "strip s = []"
  then have "\<forall>c\<in>set (dropWhile isspace s). isspace c"
    by (simp add: strip_def)
  then have "dropWhile isspace s = []" by (rule dropWhile_all_Nil)
  then show "\<forall>c\<in>set s. isspace c" by simp
next
  assume "\<forall>c\<in>set s. isspace c"
  then have e: "dropWhile isspace s = []" by simp
  show "strip s = []" by (simp only: strip_def e rev.simps dropWhile.simps)
qed

lemma nonws_strip: "nonws (strip s) = nonws s"
proof -
  have "filter (\<lambda>c. \<not> isspace c) (strip s) = filter (\<lambda>c. \<not> isspace c) s"
    unfolding strip_def
    by (simp add: filter_dropWhile_not rev_filter [symmetric])
  then show ?thesis by (simp add: nonws_def)
qed

lemma nonws_blank: "strip s = [] \<Longrightarrow> nonws s = {#}"
  by (simp add: strip_Nil_iff nonws_def)

lemma nonws_append: "nonws (a @ b) = nonws a + nonws b"
  by (simp add: nonws_def)

lemma tgrows_refl: "tgrows t t" by (simp add: tgrows_def)

lemma tgrows_trans:
  assumes "tgrows a b" and "tgrows b c"
  shows "tgrows a c"
proof -
  have "length (rows a ! r) \<le> length (rows c ! r)" if r: "r < length (rows a)" for r
  proof -
    from r assms(1) have "r < length (rows b)" and 1: "length (rows a ! r) \<le> length (rows b ! r)"
      by (simp_all add: tgrows_def)
    with assms(2) have "length (rows b ! r) \<le> length (rows c ! r)"
      by (simp add: tgrows_def)
    with 1 show ?thesis by simp
  qed
  with assms show ?thesis by (simp add: tgrows_def)
qed

lemma grows_refl: "grows b b" by (cases b) (simp_all add: tgrows_refl)

lemma grows_trans: "grows a b \<Longrightarrow> grows b c \<Longrightarrow> grows a c"
  by (cases a; cases b; cases c; simp; erule (1) tgrows_trans)

lemma ext_refl: "ext d d" by (simp add: ext_def grows_refl)

lemma ext_trans:
  assumes "ext a b" and "ext b c"
  shows "ext a c"
proof -
  have "grows (a ! i) (c ! i)" if i: "i < length a" for i
  proof -
    from i assms(1) have "i < length b" and 1: "grows (a ! i) (b ! i)"
      by (simp_all add: ext_def)
    with assms(2) have "grows (b ! i) (c ! i)" by (simp add: ext_def)
    with 1 show ?thesis by (rule grows_trans)
  qed
  with assms show ?thesis by (simp add: ext_def)
qed

lemma ext_append: "ext d (d @ xs)"
  by (simp add: ext_def nth_append grows_refl)

lemma ext_map_table: "(\<And>t. tgrows t (f t)) \<Longrightarrow> ext d (map_table ti f d)"
  by (auto simp: ext_def map_table_def nth_list_update grows_refl split: block.splits)

lemma tgrows_add_row: "tgrows t (add_row t)"
  by (simp add: tgrows_def add_row_def nth_append)

lemma tgrows_add_column: "tgrows t (add_column t)"
  by (simp add: tgrows_def add_column_def)

lemma tgrows_ensure_columns: "tgrows t (ensure_columns t idx)"
proof (induction t idx rule: ensure_columns.induct)
  case (1 t idx)
  show ?case
  proof (cases "columns t \<le> idx")
    case True
    with 1 have "tgrows (add_column t) (ensure_columns t idx)"
      by (simp add: ensure_columns.simps [of t])
    with tgrows_add_column show ?thesis by (rule tgrows_trans)
  next
    case False
    then show ?thesis by (simp add: ensure_columns.simps [of t] tgrows_refl)
  qed
qed

lemma tgrows_map_cell: "tgrows t (map_cell ri ci f t)"
  by (simp add: tgrows_def map_cell_def nth_list_update)

lemma ext_map_paragraph: "ext d (map_paragraph p f d)"
proof (cases p)
  case (BodyPara i)
  then show ?thesis
    by (auto simp: map_paragraph_def ext_def nth_list_update grows_refl split: block.splits)
next
  case (CellPara ti ri ci)
  then show ?thesis
    by (simp add: map_paragraph_def ext_map_table tgrows_map_cell)
qed

lemma valid_pref_ext:
  assumes "valid_pref d p" and "ext d d'"
  shows "valid_pref d' p"
proof (cases p)
  case (BodyPara i)
  with assms have i: "i < length d" and "grows (d ! i) (d' ! i)"
    and "case d ! i of Para _ \<Rightarrow> True | Tbl _ \<Rightarrow> False"
    by (simp_all add: valid_pref_def ext_def)
  then have "case d' ! i of Para _ \<Rightarrow> True | Tbl _ \<Rightarrow> False"
    by (cases "d ! i"; cases "d' ! i") simp_all
  with i assms BodyPara show ?thesis by (simp add: valid_pref_def ext_def)
next
  case (CellPara ti ri ci)
  with assms have i: "ti < length d" and g: "grows (d ! ti) (d' ! ti)"
    and c: "case d ! ti of Tbl t \<Rightarrow> ri < length (rows t) \<and> ci < length (rows t ! ri) | Para _ \<Rightarrow> False"
    by (simp_all add: valid_pref_def ext_def)
  from c obtain t where t: "d ! ti = Tbl t" "ri < length (rows t)" "ci < length (rows t ! ri)"
    by (cases "d ! ti") simp_all
  with g obtain t' where t': "d' ! ti = Tbl t'" "tgrows t t'"
    by (cases "d' ! ti") simp_all
  from t t' have "ri < length (rows t')" and "length (rows t ! ri) \<le> length (rows t' ! ri)"
    by (simp_all add: tgrows_def)
  with t have "ri < length (rows t') \<and> ci < length (rows t' ! ri)"
    by simp
  with i assms CellPara t' show ?thesis by (simp add: valid_pref_def ext_def)
qed

subsection \<open>What flush\_text changes\<close>

lemma flush_text_frame [simp]:
  "in_code (flushed s) = in_code s"
  "in_heading (flushed s) = in_heading s"
  "heading_level (flushed s) = heading_level s"
  "list_level (flushed s) = list_level s"
  "text_buffer (flushed s) = []"
  "current_table (flushed s) = current_table s"
  "current_row (flushed s) = current_row s"
  "current_cell (flushed s) = current_cell s"
  "in_table_header (flushed s) = in_table_header s"
  "in_code_block (flushed s) = in_code_block s"
  "current_language (flushed s) = current_language s"
  "current_cell_index (flushed s) = current_cell_index s"
  by (simp_all add: flushed_def Let_def split: prod.splits)

lemma flush_text_blank:
  "strip (text_buffer s) = [] \<Longrightarrow> flushed s = s\<lparr>text_buffer := []\<rparr>"
  by (simp add: flushed_def)

lemma add_run_eq:
  "add_run p r d = (if xml_compatible (run_text r) then Inr (put_run p r d) else Inl ValueError)"
  by (simp add: add_run_def put_run_def)

lemma flush_text_eq:
  "flush_text s = (if flush_raises s then Inl ValueError else Inr (flushed s))"
  by (simp add: flush_text_def flushed_def flush_raises_def add_run_eq code_block_run_def
      inline_code_run_def plain_run_def Let_def split: prod.splits)

lemma flush_text_Inr: "flush_text s = Inr s' \<longleftrightarrow> \<not> flush_raises s \<and> flushed s = s'"
  by (simp add: flush_text_eq)

lemma flush_text_Inl: "flush_text s = Inl e \<longleftrightarrow> flush_raises s \<and> e = ValueError"
  by (auto simp: flush_text_eq)

lemma flush_text_after: "flush_text s = after_flush s (\<lambda>s1. s1)"
  by (simp add: flush_text_eq after_flush_def)

lemma case_flush_text:
  "(case flush_text s of Inl e \<Rightarrow> Inl e | Inr s1 \<Rightarrow> Inr (f s1)) = after_flush s f"
  by (simp add: flush_text_eq after_flush_def)

lemma after_flush_Inr [simp]:
  "after_flush s f = Inr s' \<longleftrightarrow> \<not> flush_raises s \<and> f (flushed s) = s'"
  by (simp add: after_flush_def)

lemma after_flush_Inl [simp]:
  "after_flush s f = Inl e \<longleftrightarrow> flush_raises s \<and> e = ValueError"
  by (auto simp: after_flush_def)

lemma flush_raises_blank: "strip (text_buffer s) = [] \<Longrightarrow> \<not> flush_raises s"
  by (simp add: flush_raises_def)

lemma flush_raises_empty [simp]: "text_buffer s = [] \<Longrightarrow> \<not> flush_raises s"
  by (simp add: flush_raises_def strip_def)

lemma valid_pref_add_run: "valid_pref d p \<Longrightarrow> valid_pref (put_run q r d) p"
  unfolding put_run_def by (erule valid_pref_ext) (rule ext_map_paragraph)

lemma valid_pref_append_pPr: "valid_pref d p \<Longrightarrow> valid_pref (append_pPr q xs d) p"
  unfolding append_pPr_def by (erule valid_pref_ext) (rule ext_map_paragraph)

lemma valid_pref_new: "valid_pref (d @ [Para q]) (BodyPara (length d))"
  by (simp add: valid_pref_def)

lemma ext_add_run: "ext d (put_run p r d)"
  unfolding put_run_def by (rule ext_map_paragraph)

lemma ext_append_pPr: "ext d (append_pPr p xs d)"
  unfolding append_pPr_def by (rule ext_map_paragraph)

lemma ext_flush_text: "ext (doc s) (doc (flushed s))"
proof (cases "strip (text_buffer s) = []")
  case True
  then show ?thesis by (simp add: flush_text_blank ext_refl)
next
  case False
  obtain d p where dp: "(case current_paragraph s of
                           None \<Rightarrow> add_paragraph (doc s) Default_Style
                         | Some p \<Rightarrow> (doc s, p)) = (d, p)"
    by (cases "case current_paragraph s of
                 None \<Rightarrow> add_paragraph (doc s) Default_Style | Some p \<Rightarrow> (doc s, p)")
  have 1: "ext (doc s) d"
    using dp by (auto simp: add_paragraph_def ext_append ext_refl split: option.splits)
  have 2: "ext d (doc (flushed s))"
    using False dp
    by (auto simp: flushed_def intro: ext_add_run ext_trans [OF ext_add_run ext_append_pPr])
  from 1 2 show ?thesis by (rule ext_trans)
qed

lemma ok_flush_text:
  assumes "parser_ok s"
  shows "parser_ok (flushed s)"
proof (cases "strip (text_buffer s) = []")
  case True
  with assms show ?thesis by (simp add: flush_text_blank parser_ok_def)
next
  case False
  obtain d p where dp: "(case current_paragraph s of
                           None \<Rightarrow> add_paragraph (doc s) Default_Style
                         | Some p \<Rightarrow> (doc s, p)) = (d, p)"
    by (cases "case current_paragraph s of
                 None \<Rightarrow> add_paragraph (doc s) Default_Style | Some p \<Rightarrow> (doc s, p)")
  have 1: "valid_pref d p"
    using dp assms
    by (cases "current_paragraph s") (auto simp: add_paragraph_def parser_ok_def valid_pref_new)
  have 2: "current_paragraph (flushed s) = Some p"
    using False dp by (simp add: flushed_def)
  have 3: "valid_pref (doc (flushed s)) p"
    using False dp 1
    by (auto simp: flushed_def intro: valid_pref_add_run valid_pref_append_pPr)
  from assms 2 3 show ?thesis by (simp add: parser_ok_def)
qed

subsection \<open>The cases of the handlers\<close>

lemma start_div_cases:
  assumes "start_div s attrs = Inr s'"
  shows "s' = s \<or>
         s' = (flushed s)\<lparr>in_code_block := True,
                doc := doc (flushed s) @ [Para (empty_paragraph\<lparr>p_style := Default_Style\<rparr>)],
                current_paragraph := Some (BodyPara (length (doc (flushed s))))\<rparr>"
  using assms
proof (induction attrs)
  case Nil
  then show ?case by simp
next
  case (Cons a attrs)
  obtain n v where a: "a = (n, v)" by (cases a)
  show ?case
  proof (cases "n = ''class''")
    case False
    with Cons a show ?thesis by simp
  next
    case True
    with Cons.prems a obtain w where w: "v = Some w" by (cases v) auto
    show ?thesis
    proof (cases "str_contains ''codehilite'' w")
      case False
      with Cons a True w show ?thesis by simp
    next
      case c: True
      with Cons.prems a True w show ?thesis
        by (auto simp: Let_def add_paragraph_def flush_text_eq split: if_splits)
    qed
  qed
qed

lemma start_cell_cases [consumes 1, case_names same opened grown]:
  assumes "start_cell s = Inr s'"
  obtains "current_row s = None" "s' = s"
  | rt ri ti idx where "current_row s = Some (rt, ri)" "current_table s = Some ti"
      "idx = (case current_cell_index s of None \<Rightarrow> 0 | Some i \<Rightarrow> i)"
      "idx < length (row_cells (map_table ti (\<lambda>t. ensure_columns t idx) (doc s)) rt ri)"
      "s' = s\<lparr>current_cell_index := Some idx,
               doc := set_cell_text_empty rt ri idx (map_table ti (\<lambda>t. ensure_columns t idx) (doc s)),
               current_cell := Some (rt, ri, idx),
               current_paragraph := Some (CellPara rt ri idx)\<rparr>"
  | rt ri ti idx where "current_row s = Some (rt, ri)" "current_table s = Some ti"
      "idx = (case current_cell_index s of None \<Rightarrow> 0 | Some i \<Rightarrow> i)"
      "\<not> idx < length (row_cells (map_table ti (\<lambda>t. ensure_columns t idx) (doc s)) rt ri)"
      "s' = s\<lparr>current_cell_index := Some idx,
               doc := map_table ti (\<lambda>t. ensure_columns t idx) (doc s)\<rparr>"
proof (cases "current_row s")
  case None
  with assms have "s' = s" by (simp add: start_cell_def)
  with None show ?thesis by (rule that(1))
next
  case (Some r)
  obtain rt ri where r: "r = (rt, ri)" by (cases r)
  from assms Some r obtain ti where ti: "current_table s = Some ti"
    by (cases "current_table s") (auto simp: start_cell_def Let_def)
  define idx where "idx = (case current_cell_index s of None \<Rightarrow> 0 | Some i \<Rightarrow> i)"
  show ?thesis
  proof (cases "idx < length (row_cells (map_table ti (\<lambda>t. ensure_columns t idx) (doc s)) rt ri)")
    case True
    with assms Some r ti
    have "s' = s\<lparr>current_cell_index := Some idx,
               doc := set_cell_text_empty rt ri idx (map_table ti (\<lambda>t. ensure_columns t idx) (doc s)),
               current_cell := Some (rt, ri, idx),
               current_paragraph := Some (CellPara rt ri idx)\<rparr>"
      by (simp add: start_cell_def Let_def idx_def)
    with Some r ti idx_def True show ?thesis by (intro that(2)) simp_all
  next
    case False
    with assms Some r ti
    have "s' = s\<lparr>current_cell_index := Some idx,
               doc := map_table ti (\<lambda>t. ensure_columns t idx) (doc s)\<rparr>"
      by (simp add: start_cell_def Let_def idx_def)
    with Some r ti idx_def False show ?thesis by (intro that(3)) simp_all
  qed
qed

lemma starttag_heading:
  "tag \<in> set heading_tags \<Longrightarrow>
   handle_starttag s tag attrs
     = after_flush s (\<lambda>s1. s1\<lparr>in_heading := True, heading_level := digit_value (tag ! 1)\<rparr>)"
  by (simp add: handle_starttag_def flush_text_eq after_flush_def)

lemma starttag_p:
  "handle_starttag s ''p'' attrs
     = after_flush s (\<lambda>s1. s1\<lparr>doc := doc s1 @ [Para (empty_paragraph\<lparr>p_style := Default_Style\<rparr>)],
              current_paragraph := Some (BodyPara (length (doc s1)))\<rparr>)"
  by (simp add: handle_starttag_def heading_tags_def Let_def add_paragraph_def flush_text_eq after_flush_def)

lemma starttag_code:
  "handle_starttag s ''code'' attrs = after_flush s (\<lambda>s1. s1\<lparr>in_code := True\<rparr>)"
  by (simp add: handle_starttag_def heading_tags_def flush_text_eq after_flush_def)

lemma starttag_div:
  "handle_starttag s ''div'' attrs = start_div s attrs"
  by (simp add: handle_starttag_def heading_tags_def)

lemma starttag_pre:
  "handle_starttag s ''pre'' attrs
     = (if in_code_block s then Inr (s\<lparr>in_code := True\<rparr>)
        else after_flush s (\<lambda>s1. s1\<lparr>doc := doc s1 @ [Para (empty_paragraph\<lparr>p_style := Default_Style\<rparr>)],
              current_paragraph := Some (BodyPara (length (doc s1)))\<rparr>))"
  by (simp add: handle_starttag_def heading_tags_def Let_def add_paragraph_def flush_text_eq after_flush_def)

lemma starttag_ul:
  "handle_starttag s ''ul'' attrs = after_flush s (\<lambda>s1. s1\<lparr>list_level := list_level s1 + 1\<rparr>)"
  by (simp add: handle_starttag_def heading_tags_def flush_text_eq after_flush_def)

lemma starttag_ol:
  "handle_starttag s ''ol'' attrs = after_flush s (\<lambda>s1. s1\<lparr>list_level := list_level s1 + 1\<rparr>)"
  by (simp add: handle_starttag_def heading_tags_def flush_text_eq after_flush_def)

lemma starttag_li:
  "handle_starttag s ''li'' attrs
     = after_flush s (\<lambda>s1. s1\<lparr>doc := doc s1 @ [Para (empty_paragraph\<lparr>p_style := List_Bullet\<rparr>)],
              current_paragraph := Some (BodyPara (length (doc s1)))\<rparr>)"
  by (simp add: handle_starttag_def heading_tags_def Let_def add_paragraph_def flush_text_eq after_flush_def)

lemma starttag_table:
  "handle_starttag s ''table'' attrs
     = after_flush s (\<lambda>s1. s1\<lparr>doc := doc s1 @ [Tbl (empty_table\<lparr>tbl_style := Some ''Table Grid''\<rparr>)],
              current_table := Some (length (doc s1))\<rparr>)"
  by (simp add: handle_starttag_def heading_tags_def Let_def add_table_def flush_text_eq after_flush_def)

lemma starttag_thead:
  "handle_starttag s ''thead'' attrs = Inr (s\<lparr>in_table_header := True\<rparr>)"
  by (simp add: handle_starttag_def heading_tags_def)

lemma starttag_tbody:
  "handle_starttag s ''tbody'' attrs = Inr (s\<lparr>in_table_header := False\<rparr>)"
  by (simp add: handle_starttag_def heading_tags_def)

lemma starttag_tr:
  "handle_starttag s ''tr'' attrs
     = (case current_table s of
          None \<Rightarrow> Inr s
        | Some ti \<Rightarrow>
            Inr (s\<lparr>doc := map_table ti add_row (doc s),
                    current_row := Some (ti, length (rows (table_at (doc s) ti))),
                    current_cell_index := Some 0\<rparr>))"
  by (simp add: handle_starttag_def heading_tags_def)

lemma starttag_td: "handle_starttag s ''td'' attrs = start_cell s"
  by (simp add: handle_starttag_def heading_tags_def)

lemma starttag_th: "handle_starttag s ''th'' attrs = start_cell s"
  by (simp add: handle_starttag_def heading_tags_def)

lemma starttag_br:
  "handle_starttag s ''br'' attrs = Inr (s\<lparr>text_buffer := text_buffer s @ [CHR 0x0A]\<rparr>)"
  by (simp add: handle_starttag_def heading_tags_def)

lemma starttag_other:
  "tag \<notin> set heading_tags \<Longrightarrow>
   tag \<notin> set [''p'', ''code'', ''div'', ''pre'', ''ul'', ''ol'', ''li'', ''table'', ''thead'',
                ''tbody'', ''tr'', ''td'', ''th'', ''br''] \<Longrightarrow>
   handle_starttag s tag attrs = Inr s"
  by (simp add: handle_starttag_def)

lemma tag_cases:
  obtains "tag \<in> set heading_tags"
  | "tag = ''p''" | "tag = ''code''" | "tag = ''div''" | "tag = ''pre''" | "tag = ''ul''"
  | "tag = ''ol''" | "tag = ''li''" | "tag = ''table''" | "tag = ''thead''" | "tag = ''tbody''"
  | "tag = ''tr''" | "tag = ''td''" | "tag = ''th''" | "tag = ''br''"
  | "tag \<notin> set heading_tags"
    "tag \<notin> set [''p'', ''code'', ''div'', ''pre'', ''ul'', ''ol'', ''li'', ''table'', ''thead'',
                  ''tbody'', ''tr'', ''td'', ''th'', ''br'']"
proof (cases "tag \<in> set heading_tags")
  case True
  then show ?thesis by (rule that(1))
next
  case h: False
  show ?thesis
  proof (cases "tag \<in> set [''p'', ''code'', ''div'', ''pre'', ''ul'', ''ol'', ''li'', ''table'', ''thead'',
                  ''tbody'', ''tr'', ''td'', ''th'', ''br'']")
    case False
    with h show ?thesis by (rule that(16))
  next
    case True
    then have "tag = ''p'' \<or> tag = ''code'' \<or> tag = ''div'' \<or> tag = ''pre'' \<or> tag = ''ul''
      \<or> tag = ''ol'' \<or> tag = ''li'' \<or> tag = ''table'' \<or> tag = ''thead'' \<or> tag = ''tbody''
      \<or> tag = ''tr'' \<or> tag = ''td'' \<or> tag = ''th'' \<or> tag = ''br''"
      by (simp only: list.set insert_iff empty_iff simp_thms)
    then show ?thesis
      apply (elim disjE)
      apply (erule that(2))
      apply (erule that(3))
      apply (erule that(4))
      apply (erule that(5))
      apply (erule that(6))
      apply (erule that(7))
      apply (erule that(8))
      apply (erule that(9))
      apply (erule that(10))
      apply (erule that(11))
      apply (erule that(12))
      apply (erule that(13))
      apply (erule that(14))
      apply (erule that(15))
      done
  qed
qed

lemma handle_starttag_cases [consumes 1, case_names heading new_par code div pre_block list table header row cell br same]:
  assumes "handle_starttag s tag attrs = Inr s'"
  obtains
    "tag \<in> set heading_tags"
    "s' = (flushed s)\<lparr>in_heading := True, heading_level := digit_value (tag ! 1)\<rparr>"
  | st where
    "s' = (flushed s)\<lparr>doc := doc (flushed s) @ [Para (empty_paragraph\<lparr>p_style := st\<rparr>)],
              current_paragraph := Some (BodyPara (length (doc (flushed s))))\<rparr>"
  | "s' = (flushed s)\<lparr>in_code := True\<rparr>"
  | "start_div s attrs = Inr s'"
  | "s' = s\<lparr>in_code := True\<rparr>"
  | "s' = (flushed s)\<lparr>list_level := list_level s + 1\<rparr>"
  | "s' = (flushed s)\<lparr>doc := doc (flushed s) @ [Tbl (empty_table\<lparr>tbl_style := Some ''Table Grid''\<rparr>)],
              current_table := Some (length (doc (flushed s)))\<rparr>"
  | b where "s' = s\<lparr>in_table_header := b\<rparr>"
  | ti where "current_table s = Some ti"
    "s' = s\<lparr>doc := map_table ti add_row (doc s),
             current_row := Some (ti, length (rows (table_at (doc s) ti))),
             current_cell_index := Some 0\<rparr>"
  | "start_cell s = Inr s'"
  | "s' = s\<lparr>text_buffer := text_buffer s @ [CHR 0x0A]\<rparr>"
  | "s' = s"
proof (cases tag rule: tag_cases)
  case 1
  with assms that(1) show ?thesis by (auto simp: starttag_heading)
next
  case 2
  with assms that(2) show ?thesis by (auto simp: starttag_p)
next
  case 3
  with assms that(3) show ?thesis by (auto simp: starttag_code)
next
  case 4
  with assms that(4) show ?thesis by (auto simp: starttag_div)
next
  case 5
  with assms that(2,5) show ?thesis by (auto simp: starttag_pre split: if_splits)
next
  case 6
  with assms that(6) show ?thesis by (auto simp: starttag_ul)
next
  case 7
  with assms that(6) show ?thesis by (auto simp: starttag_ol)
next
  case 8
  with assms that(2) show ?thesis by (auto simp: starttag_li)
next
  case 9
  with assms that(7) show ?thesis by (auto simp: starttag_table)
next
  case 10
  with assms that(8) show ?thesis by (auto simp: starttag_thead)
next
  case 11
  with assms that(8) show ?thesis by (auto simp: starttag_tbody)
next
  case 12
  with assms that(9,12) show ?thesis by (auto simp: starttag_tr split: option.splits)
next
  case 13
  with assms that(10) show ?thesis by (auto simp: starttag_td)
next
  case 14
  with assms that(10) show ?thesis by (auto simp: starttag_th)
next
  case 15
  with assms that(11) show ?thesis by (auto simp: starttag_br)
next
  case 16
  with assms that(12) show ?thesis by (auto simp: starttag_other)
qed

lemma endtag_heading:
  "tag \<in> set heading_tags \<Longrightarrow>
   handle_endtag s tag
     = (case flush_text_as_heading s of
          Inl e \<Rightarrow> Inl e
        | Inr s1 \<Rightarrow> Inr (s1\<lparr>in_heading := False\<rparr>))"
  by (simp add: handle_endtag_def)

lemma endtag_p: "handle_endtag s ''p'' = after_flush s (\<lambda>s1. s1)"
  by (simp add: handle_endtag_def heading_tags_def flush_text_eq after_flush_def)

lemma endtag_code: "handle_endtag s ''code'' = after_flush s (\<lambda>s1. s1\<lparr>in_code := False\<rparr>)"
  by (simp add: handle_endtag_def heading_tags_def flush_text_eq after_flush_def)

lemma endtag_pre:
  "handle_endtag s ''pre''
     = (if in_code_block s then after_flush s (\<lambda>s1. s1\<lparr>in_code := False\<rparr>)
        else after_flush s (\<lambda>s1. s1))"
  by (simp add: handle_endtag_def heading_tags_def flush_text_eq after_flush_def)

lemma endtag_div:
  "handle_endtag s ''div''
     = (if in_code_block s then Inr (s\<lparr>in_code_block := False, current_paragraph := None\<rparr>)
        else Inr s)"
  by (simp add: handle_endtag_def heading_tags_def)

lemma endtag_ul: "handle_endtag s ''ul'' = Inr (s\<lparr>list_level := list_level s - 1\<rparr>)"
  by (simp add: handle_endtag_def heading_tags_def)

lemma endtag_ol: "handle_endtag s ''ol'' = Inr (s\<lparr>list_level := list_level s - 1\<rparr>)"
  by (simp add: handle_endtag_def heading_tags_def)

lemma endtag_li: "handle_endtag s ''li'' = after_flush s (\<lambda>s1. s1)"
  by (simp add: handle_endtag_def heading_tags_def flush_text_eq after_flush_def)

lemma endtag_table:
  "handle_endtag s ''table''
     = Inr (s\<lparr>current_table := None, current_row := None, current_cell := None\<rparr>)"
  by (simp add: handle_endtag_def heading_tags_def)

lemma endtag_tr: "handle_endtag s ''tr'' = Inr (s\<lparr>current_row := None\<rparr>)"
  by (simp add: handle_endtag_def heading_tags_def)

lemma endtag_td:
  "handle_endtag s ''td''
     = after_flush s (\<lambda>s1. s1\<lparr>current_cell_index := map_option Suc (current_cell_index s1),
              current_cell := None, current_paragraph := None\<rparr>)"
  by (cases "current_cell_index s")
     (simp_all add: handle_endtag_def heading_tags_def Let_def flush_text_eq after_flush_def)

lemma endtag_th:
  "handle_endtag s ''th''
     = after_flush s (\<lambda>s1. s1\<lparr>current_cell_index := map_option Suc (current_cell_index s1),
              current_cell := None, current_paragraph := None\<rparr>)"
  by (cases "current_cell_index s")
     (simp_all add: handle_endtag_def heading_tags_def Let_def flush_text_eq after_flush_def)

lemma endtag_other:
  "tag \<notin> set heading_tags \<Longrightarrow>
   tag \<notin> set [''p'', ''code'', ''div'', ''pre'', ''ul'', ''ol'', ''li'', ''table'', ''thead'',
                ''tbody'', ''tr'', ''td'', ''th'', ''br''] \<Longrightarrow>
   handle_endtag s tag = Inr s"
  by (simp add: handle_endtag_def)

lemma endtag_thead: "handle_endtag s ''thead'' = Inr s"
  by (simp add: handle_endtag_def heading_tags_def)

lemma endtag_tbody: "handle_endtag s ''tbody'' = Inr s"
  by (simp add: handle_endtag_def heading_tags_def)

lemma endtag_br: "handle_endtag s ''br'' = Inr s"
  by (simp add: handle_endtag_def heading_tags_def)

lemma flush_text_as_heading_result:
  assumes "flush_text_as_heading s = Inr s1"
  shows "s1 = s\<lparr>doc := doc s @
               (if strip (text_buffer s) = [] then []
                else [Para \<lparr>p_style = (if heading_level s = 0 then Title else Heading (heading_level s)),
                              p_runs = [plain_run (strip (text_buffer s))], pPr = []\<rparr>]),
             text_buffer := [], current_paragraph := None\<rparr>"
  using assms
  by (auto simp: flush_text_as_heading_def add_heading_def split: if_splits)

lemma handle_endtag_cases [consumes 1, case_names heading flush code div list table row cell same]:
  assumes "handle_endtag s tag = Inr s'"
  obtains
    s1 where "tag \<in> set heading_tags" "flush_text_as_heading s = Inr s1"
      "s' = s1\<lparr>in_heading := False\<rparr>"
  | "s' = flushed s"
  | "s' = (flushed s)\<lparr>in_code := False\<rparr>"
  | "s' = s\<lparr>in_code_block := False, current_paragraph := None\<rparr>"
  | "s' = s\<lparr>list_level := list_level s - 1\<rparr>"
  | "s' = s\<lparr>current_table := None, current_row := None, current_cell := None\<rparr>"
  | "s' = s\<lparr>current_row := None\<rparr>"
  | "s' = (flushed s)\<lparr>current_cell_index := map_option Suc (current_cell_index s),
              current_cell := None, current_paragraph := None\<rparr>"
  | "s' = s"
proof (cases tag rule: tag_cases)
  case 1
  with assms that(1) show ?thesis by (auto simp: endtag_heading split: sum.splits)
next
  case 2
  with assms that(2) show ?thesis by (auto simp: endtag_p)
next
  case 3
  with assms that(3) show ?thesis by (auto simp: endtag_code)
next
  case 4
  with assms that(4,9) show ?thesis by (auto simp: endtag_div split: if_splits)
next
  case 5
  with assms that(2,3) show ?thesis by (auto simp: endtag_pre split: if_splits)
next
  case 6
  with assms that(5) show ?thesis by (auto simp: endtag_ul)
next
  case 7
  with assms that(5) show ?thesis by (auto simp: endtag_ol)
next
  case 8
  with assms that(2) show ?thesis by (auto simp: endtag_li)
next
  case 9
  with assms that(6) show ?thesis by (auto simp: endtag_table)
next
  case 10
  with assms that(9) show ?thesis by (auto simp: endtag_thead)
next
  case 11
  with assms that(9) show ?thesis by (auto simp: endtag_tbody)
next
  case 12
  with assms that(7) show ?thesis by (auto simp: endtag_tr)
next
  case 13
  with assms that(8) show ?thesis by (auto simp: endtag_td)
next
  case 14
  with assms that(8) show ?thesis by (auto simp: endtag_th)
next
  case 15
  with assms that(9) show ?thesis by (auto simp: endtag_br)
next
  case 16
  with assms that(9) show ?thesis by (auto simp: endtag_other)
qed

subsection \<open>Every handler only extends the document\<close>

lemma ext_flush_append: "ext (doc s) (doc (flushed s) @ bs)"
  by (rule ext_trans [OF ext_flush_text ext_append])

lemma ext_set_cell_text_empty: "ext d (set_cell_text_empty ti ri ci d)"
  unfolding set_cell_text_empty_def by (rule ext_map_table) (rule tgrows_map_cell)

lemma ext_ensure_columns: "ext d (map_table ti (\<lambda>t. ensure_columns t idx) d)"
  by (rule ext_map_table) (rule tgrows_ensure_columns)

lemma ext_add_row: "ext d (map_table ti add_row d)"
  by (rule ext_map_table) (rule tgrows_add_row)

lemma ext_open_cell:
  "ext d (set_cell_text_empty rt ri ci (map_table ti (\<lambda>t. ensure_columns t idx) d))"
  by (rule ext_trans [OF ext_ensure_columns ext_set_cell_text_empty])

lemma ext_start_div: "start_div s attrs = Inr s' \<Longrightarrow> ext (doc s) (doc s')"
  by (drule start_div_cases) (auto simp: ext_refl ext_flush_append)

lemma ext_start_cell: "start_cell s = Inr s' \<Longrightarrow> ext (doc s) (doc s')"
  by (cases rule: start_cell_cases)
     (auto simp: ext_refl ext_open_cell ext_ensure_columns)

lemma ext_handle_starttag: "handle_starttag s tag attrs = Inr s' \<Longrightarrow> ext (doc s) (doc s')"
  by (cases rule: handle_starttag_cases)
     (auto simp: ext_refl ext_flush_append ext_flush_text ext_add_row ext_start_div ext_start_cell)

lemma ext_handle_endtag: "handle_endtag s tag = Inr s' \<Longrightarrow> ext (doc s) (doc s')"
  by (cases rule: handle_endtag_cases)
     (auto simp: ext_refl ext_flush_text ext_append dest!: flush_text_as_heading_result)

lemma ext_handle: "handle s e = Inr s' \<Longrightarrow> ext (doc s) (doc s')"
  by (cases e) (auto simp: handle_data_def ext_refl ext_handle_starttag ext_handle_endtag)

lemma ext_feed: "feed s es = Inr s' \<Longrightarrow> ext (doc s) (doc s')"
proof (induction es arbitrary: s)
  case Nil
  then show ?case by (simp add: ext_refl)
next
  case (Cons e es)
  then obtain s1 where 1: "handle s e = Inr s1" and 2: "feed s1 es = Inr s'"
    by (auto split: sum.splits)
  from ext_handle [OF 1] Cons.IH [OF 2] show ?case by (rule ext_trans)
qed

subsection \<open>The invariant is kept, and what an end tag can raise\<close>

lemma ok_init: "parser_ok (parser_init d)"
  by (simp add: parser_ok_def parser_init_def)

lemma digit_value_heading: "tag \<in> set heading_tags \<Longrightarrow> 1 \<le> digit_value (tag ! 1) \<and> digit_value (tag ! 1) \<le> 6"
  by (auto simp: heading_tags_def digit_value_def)

lemma valid_current_ext: "valid_current d c \<Longrightarrow> ext d d' \<Longrightarrow> valid_current d' c"
  by (cases c) (auto intro: valid_pref_ext)

lemma ok_step:
  assumes "parser_ok s" and "ext (doc s) (doc s')"
    and "current_paragraph s' = current_paragraph s \<or> valid_current (doc s') (current_paragraph s')"
    and "current_row s' = None \<or> current_table s' \<noteq> None"
    and "heading_level s' \<le> 9"
  shows "parser_ok s'"
proof -
  from assms(1,2) have "valid_current (doc s') (current_paragraph s)"
    by (auto simp: parser_ok_def intro: valid_current_ext)
  with assms(3) have "valid_current (doc s') (current_paragraph s')" by auto
  with assms(4,5) show ?thesis by (simp add: parser_ok_def)
qed

lemma ok_row: "parser_ok s \<Longrightarrow> current_row s = None \<or> current_table s \<noteq> None"
  by (simp add: parser_ok_def)

lemma ok_level: "parser_ok s \<Longrightarrow> heading_level s \<le> 9"
  by (simp add: parser_ok_def)

lemma row_cells_valid:
  "idx < length (row_cells d rt ri) \<Longrightarrow> valid_pref d (CellPara rt ri idx)"
  by (auto simp: row_cells_def table_at_def valid_pref_def empty_table_def Let_def split: if_splits block.splits)

lemma ok_start_div:
  assumes "parser_ok s" and "start_div s attrs = Inr s'"
  shows "parser_ok s'"
proof -
  from assms(2) have e: "ext (doc s) (doc s')" by (rule ext_start_div)
  from ok_flush_text [OF assms(1)] have f: "parser_ok (flushed s)" .
  from start_div_cases [OF assms(2)] show ?thesis
  proof
    assume "s' = s"
    with assms(1) show ?thesis by simp
  next
    assume s': "s' = (flushed s)\<lparr>in_code_block := True,
                doc := doc (flushed s) @ [Para (empty_paragraph\<lparr>p_style := Default_Style\<rparr>)],
                current_paragraph := Some (BodyPara (length (doc (flushed s))))\<rparr>"
    show ?thesis
      using assms(1) e
    proof (rule ok_step)
      show "current_paragraph s' = current_paragraph s \<or> valid_current (doc s') (current_paragraph s')"
        by (simp add: s' valid_pref_new)
      show "current_row s' = None \<or> current_table s' \<noteq> None"
        using ok_row [OF assms(1)] by (simp add: s')
      show "heading_level s' \<le> 9"
        using ok_level [OF assms(1)] by (simp add: s')
    qed
  qed
qed

lemma ok_start_cell:
  assumes "parser_ok s" and "start_cell s = Inr s'"
  shows "parser_ok s'"
  using assms(1) ext_start_cell [OF assms(2)]
proof (rule ok_step)
  from assms(2)
  show "current_paragraph s' = current_paragraph s \<or> valid_current (doc s') (current_paragraph s')"
    by (cases rule: start_cell_cases)
       (auto simp: valid_pref_ext [OF row_cells_valid ext_set_cell_text_empty])
  from assms(2) ok_row [OF assms(1)]
  show "current_row s' = None \<or> current_table s' \<noteq> None"
    by (cases rule: start_cell_cases) auto
  from assms(2) ok_level [OF assms(1)]
  show "heading_level s' \<le> 9"
    by (cases rule: start_cell_cases) auto
qed

lemma ok_frame [simp]:
  "parser_ok (s\<lparr>in_code := b\<rparr>) = parser_ok s"
  "parser_ok (s\<lparr>in_heading := b\<rparr>) = parser_ok s"
  "parser_ok (s\<lparr>list_level := k\<rparr>) = parser_ok s"
  "parser_ok (s\<lparr>text_buffer := t\<rparr>) = parser_ok s"
  "parser_ok (s\<lparr>current_cell := c\<rparr>) = parser_ok s"
  "parser_ok (s\<lparr>in_table_header := b\<rparr>) = parser_ok s"
  "parser_ok (s\<lparr>in_code_block := b\<rparr>) = parser_ok s"
  "parser_ok (s\<lparr>current_language := l\<rparr>) = parser_ok s"
  "parser_ok (s\<lparr>current_cell_index := i\<rparr>) = parser_ok s"
  by (simp_all add: parser_ok_def)

lemma ok_level_update: "parser_ok s \<Longrightarrow> n \<le> 9 \<Longrightarrow> parser_ok (s\<lparr>heading_level := n\<rparr>)"
  by (simp add: parser_ok_def)

lemma ok_no_paragraph: "parser_ok s \<Longrightarrow> parser_ok (s\<lparr>current_paragraph := None\<rparr>)"
  by (simp add: parser_ok_def)

lemma ok_no_row: "parser_ok s \<Longrightarrow> parser_ok (s\<lparr>current_row := None\<rparr>)"
  by (simp add: parser_ok_def)

lemma ok_no_table: "parser_ok s \<Longrightarrow> parser_ok (s\<lparr>current_table := None, current_row := None\<rparr>)"
  by (simp add: parser_ok_def)

lemma ok_doc_ext: "parser_ok s \<Longrightarrow> ext (doc s) d \<Longrightarrow> parser_ok (s\<lparr>doc := d\<rparr>)"
  by (rule ok_step [where s = s]) (auto dest: ok_row ok_level)

lemma ok_new_par:
  "parser_ok s \<Longrightarrow>
   parser_ok (s\<lparr>doc := doc s @ [Para q], current_paragraph := Some (BodyPara (length (doc s)))\<rparr>)"
  by (rule ok_step [where s = s]) (auto simp: ext_append valid_pref_new dest: ok_row ok_level)

lemma ok_new_table:
  "parser_ok s \<Longrightarrow> parser_ok (s\<lparr>doc := doc s @ bs, current_table := Some k\<rparr>)"
  by (rule ok_step [where s = s]) (auto simp: ext_append dest: ok_level)

lemma ok_new_row:
  "parser_ok s \<Longrightarrow> current_table s = Some ti \<Longrightarrow>
   parser_ok (s\<lparr>doc := map_table ti add_row (doc s), current_row := Some r\<rparr>)"
  by (rule ok_step [where s = s]) (auto simp: ext_add_row dest: ok_level)

lemma ok_handle_starttag:
  assumes "parser_ok s" and "handle_starttag s tag attrs = Inr s'"
  shows "parser_ok s'"
  using assms(2)
proof (cases rule: handle_starttag_cases)
  case heading
  from digit_value_heading [OF heading(1)] have "digit_value (tag ! 1) \<le> 9" by simp
  with ok_flush_text [OF assms(1)] heading(2) show ?thesis by (simp add: parser_ok_def)
next
  case (new_par st)
  with ok_new_par [OF ok_flush_text [OF assms(1)]] show ?thesis by (simp add: parser_ok_def)
next
  case code
  with ok_flush_text [OF assms(1)] show ?thesis by (simp add: parser_ok_def)
next
  case div
  with assms(1) show ?thesis by (rule ok_start_div)
next
  case pre_block
  with assms(1) show ?thesis by (simp add: parser_ok_def)
next
  case list
  with ok_flush_text [OF assms(1)] show ?thesis by (simp add: parser_ok_def)
next
  case table
  with ok_new_table [OF ok_flush_text [OF assms(1)]] show ?thesis by (simp add: parser_ok_def)
next
  case (header b)
  with assms(1) show ?thesis by (simp add: parser_ok_def)
next
  case (row ti)
  with ok_new_row [OF assms(1)] show ?thesis by (simp add: parser_ok_def)
next
  case cell
  with assms(1) show ?thesis by (rule ok_start_cell)
next
  case br
  with assms(1) show ?thesis by (simp add: parser_ok_def)
next
  case same
  with assms(1) show ?thesis by (simp add: parser_ok_def)
qed

lemma ok_handle_endtag:
  assumes "parser_ok s" and "handle_endtag s tag = Inr s'"
  shows "parser_ok s'"
  using assms(2)
proof (cases rule: handle_endtag_cases)
  case (heading s1)
  have "\<exists>bs. s1 = s\<lparr>doc := doc s @ bs, text_buffer := [], current_paragraph := None\<rparr>"
    by (rule exI, rule flush_text_as_heading_result [OF heading(2)])
  then obtain bs where "s1 = s\<lparr>doc := doc s @ bs, text_buffer := [], current_paragraph := None\<rparr>" ..
  with heading(3) ok_no_paragraph [OF ok_doc_ext [OF assms(1) ext_append, of bs]]
  show ?thesis by (simp add: parser_ok_def)
next
  case flush
  with ok_flush_text [OF assms(1)] show ?thesis by (simp add: parser_ok_def)
next
  case code
  with ok_flush_text [OF assms(1)] show ?thesis by (simp add: parser_ok_def)
next
  case div
  with ok_no_paragraph [OF assms(1)] show ?thesis by (simp add: parser_ok_def)
next
  case list
  with assms(1) show ?thesis by (simp add: parser_ok_def)
next
  case table
  with ok_no_table [OF assms(1)] show ?thesis by (simp add: parser_ok_def)
next
  case row
  with ok_no_row [OF assms(1)] show ?thesis by (simp add: parser_ok_def)
next
  case cell
  with ok_no_paragraph [OF ok_flush_text [OF assms(1)]] show ?thesis by (simp add: parser_ok_def)
next
  case same
  with assms(1) show ?thesis by (simp add: parser_ok_def)
qed

lemma ok_handle: "parser_ok s \<Longrightarrow> handle s e = Inr s' \<Longrightarrow> parser_ok s'"
  by (cases e) (auto simp: handle_data_def intro: ok_handle_starttag ok_handle_endtag)

lemma ok_feed: "parser_ok s \<Longrightarrow> feed s es = Inr s' \<Longrightarrow> parser_ok s'"
proof (induction es arbitrary: s)
  case Nil
  then show ?case by simp
next
  case (Cons e es)
  then obtain s1 where 1: "handle s e = Inr s1" and 2: "feed s1 es = Inr s'"
    by (auto split: sum.splits)
  from Cons.IH [OF ok_handle [OF Cons.prems(1) 1] 2] show ?case .
qed

lemma start_cell_returns:
  assumes "parser_ok s"
  shows "\<exists>s'. start_cell s = Inr s'"
proof (cases "current_row s")
  case None
  then show ?thesis by (simp add: start_cell_def)
next
  case (Some r)
  with ok_row [OF assms] obtain ti where "current_table s = Some ti" by auto
  with Some show ?thesis by (cases r) (simp add: start_cell_def Let_def)
qed

lemma set_strip: "set (strip t) \<subseteq> set t"
proof -
  have "set (strip t) \<subseteq> set (dropWhile isspace t)"
    unfolding strip_def using set_dropWhileD [of _ isspace "rev (dropWhile isspace t)"] by auto
  also have "\<dots> \<subseteq> set t"
    using set_dropWhileD [of _ isspace t] by auto
  finally show ?thesis .
qed

lemma xml_compatible_strip: "xml_compatible t \<Longrightarrow> xml_compatible (strip t)"
  using set_strip [of t] by (auto simp: xml_compatible_def list_all_iff)

lemma flush_text_as_heading_returns:
  assumes "heading_level s \<le> 9" and "\<not> flush_raises s"
  shows "\<exists>s'. flush_text_as_heading s = Inr s'"
proof (cases "strip (text_buffer s) = []")
  case True
  then show ?thesis by (simp add: flush_text_as_heading_def)
next
  case False
  with assms(2) have "xml_compatible (text_buffer s)" by (simp add: flush_raises_def)
  then have "xml_compatible (strip (text_buffer s))" by (rule xml_compatible_strip)
  with assms(1) False show ?thesis by (simp add: flush_text_as_heading_def add_heading_def)
qed

lemma flush_text_as_heading_raises:
  assumes "heading_level s \<le> 9" and "flush_text_as_heading s = Inl e"
  shows "e = ValueError \<and> flush_raises s"
proof -
  from assms(2) have e: "e = ValueError"
    by (auto simp: flush_text_as_heading_def add_heading_def split: if_splits)
  have "flush_raises s"
  proof (rule ccontr)
    assume "\<not> flush_raises s"
    from flush_text_as_heading_returns [OF assms(1) this] assms(2) show False by auto
  qed
  with e show ?thesis ..
qed

lemma handle_endtag_returns:
  assumes "parser_ok s" and "\<not> flush_raises s"
  shows "\<exists>s'. handle_endtag s tag = Inr s'"
proof (cases tag rule: tag_cases)
  case 1
  from flush_text_as_heading_returns [OF ok_level [OF assms(1)] assms(2)]
  obtain s1 where "flush_text_as_heading s = Inr s1" ..
  with 1 show ?thesis by (simp add: endtag_heading)
next
  case 2
  with assms(2) show ?thesis by (simp add: endtag_p)
next
  case 3
  with assms(2) show ?thesis by (simp add: endtag_code)
next
  case 4
  then show ?thesis by (simp add: endtag_div)
next
  case 5
  with assms(2) show ?thesis by (simp add: endtag_pre)
next
  case 6
  then show ?thesis by (simp add: endtag_ul)
next
  case 7
  then show ?thesis by (simp add: endtag_ol)
next
  case 8
  with assms(2) show ?thesis by (simp add: endtag_li)
next
  case 9
  then show ?thesis by (simp add: endtag_table)
next
  case 10
  then show ?thesis by (simp add: endtag_thead)
next
  case 11
  then show ?thesis by (simp add: endtag_tbody)
next
  case 12
  then show ?thesis by (simp add: endtag_tr)
next
  case 13
  with assms(2) show ?thesis by (simp add: endtag_td)
next
  case 14
  with assms(2) show ?thesis by (simp add: endtag_th)
next
  case 15
  then show ?thesis by (simp add: endtag_br)
next
  case 16
  then have "handle_endtag s tag = Inr s" by (rule endtag_other)
  then show ?thesis ..
qed

lemma handle_endtag_raises:
  assumes "parser_ok s" and "handle_endtag s tag = Inl e"
  shows "e = ValueError \<and> flush_raises s"
proof (cases tag rule: tag_cases)
  case 1
  with assms(2) have "flush_text_as_heading s = Inl e"
    by (auto simp: endtag_heading split: sum.splits)
  with ok_level [OF assms(1)] show ?thesis by (rule flush_text_as_heading_raises)
next
  case 2
  with assms(2) show ?thesis by (simp add: endtag_p)
next
  case 3
  with assms(2) show ?thesis by (simp add: endtag_code)
next
  case 4
  with assms(2) show ?thesis by (simp add: endtag_div split: if_splits)
next
  case 5
  with assms(2) show ?thesis by (simp add: endtag_pre split: if_splits)
next
  case 6
  with assms(2) show ?thesis by (simp add: endtag_ul)
next
  case 7
  with assms(2) show ?thesis by (simp add: endtag_ol)
next
  case 8
  with assms(2) show ?thesis by (simp add: endtag_li)
next
  case 9
  with assms(2) show ?thesis by (simp add: endtag_table)
next
  case 10
  with assms(2) show ?thesis by (simp add: endtag_thead)
next
  case 11
  with assms(2) show ?thesis by (simp add: endtag_tbody)
next
  case 12
  with assms(2) show ?thesis by (simp add: endtag_tr)
next
  case 13
  with assms(2) show ?thesis by (simp add: endtag_td)
next
  case 14
  with assms(2) show ?thesis by (simp add: endtag_th)
next
  case 15
  with assms(2) show ?thesis by (simp add: endtag_br)
next
  case 16
  then have "handle_endtag s tag = Inr s" by (rule endtag_other)
  with assms(2) show ?thesis by simp
qed

subsection \<open>The paragraph a flush writes\<close>

lemma par_at_map_paragraph:
  assumes "valid_pref d p"
  shows "par_at (map_paragraph p f d) p = f (par_at d p)"
proof (cases p)
  case (BodyPara i)
  with assms obtain q where "i < length d" "d ! i = Para q"
    by (cases "d ! i") (auto simp: valid_pref_def)
  with BodyPara show ?thesis by (simp add: par_at_def map_paragraph_def)
next
  case (CellPara ti ri ci)
  with assms obtain t where t: "ti < length d" "d ! ti = Tbl t" "ri < length (rows t)"
    "ci < length (rows t ! ri)"
    by (cases "d ! ti") (auto simp: valid_pref_def)
  then show ?thesis
    by (simp add: CellPara par_at_def map_paragraph_def map_table_def table_at_def map_cell_def)
qed

lemma valid_pref_map_paragraph: "valid_pref d p \<Longrightarrow> valid_pref (map_paragraph q f d) p"
  by (erule valid_pref_ext) (rule ext_map_paragraph)

lemma par_at_new: "par_at (d @ [Para q]) (BodyPara (length d)) = q"
  by (simp add: par_at_def)

lemma flush_text_writes:
  assumes "parser_ok s" and "strip (text_buffer s) \<noteq> []"
  shows "\<exists>p. current_paragraph (flushed s) = Some p \<and>
             (case current_paragraph s of None \<Rightarrow> p = BodyPara (length (doc s)) | Some q \<Rightarrow> p = q) \<and>
             valid_pref (doc (flushed s)) p \<and>
             par_at (doc (flushed s)) p
               = (flush_target s)\<lparr>p_runs := p_runs (flush_target s) @ [flushed_run s],
                                    pPr := pPr (flush_target s) @ flushed_pPr s\<rparr>"
proof -
  obtain d p where dp: "(case current_paragraph s of
                           None \<Rightarrow> add_paragraph (doc s) Default_Style
                         | Some p \<Rightarrow> (doc s, p)) = (d, p)"
    by (cases "case current_paragraph s of
                 None \<Rightarrow> add_paragraph (doc s) Default_Style | Some p \<Rightarrow> (doc s, p)")
  have v: "valid_pref d p" and t: "par_at d p = flush_target s"
    and c: "case current_paragraph s of None \<Rightarrow> p = BodyPara (length (doc s)) | Some q \<Rightarrow> p = q"
    using dp assms(1)
    by (cases "current_paragraph s";
        auto simp: add_paragraph_def parser_ok_def valid_pref_new flush_target_def par_at_new
                   empty_paragraph_def)+
  have cp: "current_paragraph (flushed s) = Some p"
    using assms(2) dp by (simp add: flushed_def)
  have d': "doc (flushed s)
             = (if in_code s \<and> in_code_block s
                then append_pPr p code_block_pPr (put_run p (flushed_run s) d)
                else put_run p (flushed_run s) d)"
    using assms(2) dp by (simp add: flushed_def flushed_run_def)
  have v': "valid_pref (doc (flushed s)) p"
    using v by (simp add: d' valid_pref_add_run valid_pref_append_pPr)
  have "par_at (doc (flushed s)) p
          = (flush_target s)\<lparr>p_runs := p_runs (flush_target s) @ [flushed_run s],
                               pPr := pPr (flush_target s) @ flushed_pPr s\<rparr>"
    using v t
    by (simp add: d' flushed_pPr_def put_run_def append_pPr_def par_at_map_paragraph
                  valid_pref_map_paragraph)
  with cp c v' show ?thesis by blast
qed

subsection \<open>Tables\<close>

lemma ext_nth_table:
  assumes "ext d d'" and "i < length d" and "d ! i = Tbl t"
  shows "\<exists>t'. d' ! i = Tbl t' \<and> columns t \<le> columns t'"
proof -
  from assms have "grows (Tbl t) (d' ! i)" by (auto simp: ext_def)
  then show ?thesis by (cases "d' ! i") (simp_all add: tgrows_def)
qed

lemma columns_ensure_columns: "columns (ensure_columns t idx) = max (columns t) (Suc idx)"
proof (induction t idx rule: ensure_columns.induct)
  case (1 t idx)
  show ?case
  proof (cases "columns t \<le> idx")
    case True
    with 1 have "columns (ensure_columns (add_column t) idx) = max (Suc (columns t)) (Suc idx)"
      by (simp add: add_column_def)
    with True show ?thesis by (simp add: ensure_columns.simps [of t])
  next
    case False
    then show ?thesis by (simp add: ensure_columns.simps [of t])
  qed
qed

lemma columns_map_cell: "columns (map_cell ri ci f t) = columns t"
  by (simp add: map_cell_def)

lemma table_at_map_table:
  "ti < length d \<Longrightarrow> d ! ti = Tbl t \<Longrightarrow>
   table_at (map_table tj f d) ti = (if tj = ti then f t else t)"
  by (auto simp: table_at_def map_table_def split: block.splits)

lemma map_table_nth:
  "ti < length d \<Longrightarrow> d ! ti = Tbl t \<Longrightarrow>
   map_table tj f d ! ti = Tbl (if tj = ti then f t else t)"
  by (auto simp: map_table_def split: block.splits)

lemma length_map_table: "length (map_table tj f d) = length d"
  by (simp add: map_table_def split: block.splits)

lemma start_cell_columns:
  assumes "start_cell s = Inr s'" and "current_row s = Some r" and "current_table s = Some ti"
    and "ti < length (doc s)" and "doc s ! ti = Tbl t"
  shows "columns (table_at (doc s') ti)
           = max (columns t) (Suc (case current_cell_index s of None \<Rightarrow> 0 | Some i \<Rightarrow> i))"
  using assms(1)
proof (cases rule: start_cell_cases)
  case same
  with assms(2) show ?thesis by simp
next
  case (opened rt ri tj idx)
  with assms(3) have tj: "tj = ti" by simp
  let ?d1 = "map_table ti (\<lambda>t. ensure_columns t idx) (doc s)"
  from assms(4,5) have 1: "ti < length ?d1" "?d1 ! ti = Tbl (ensure_columns t idx)"
    by (simp_all add: length_map_table map_table_nth)
  from opened(5) tj have "doc s' = map_table rt (map_cell ri idx (\<lambda>_. cleared_cell)) ?d1"
    by (simp add: set_cell_text_empty_def)
  with 1 opened(3) show ?thesis
    by (simp add: table_at_map_table columns_map_cell columns_ensure_columns)
next
  case (grown rt ri tj idx)
  with assms(3) have tj: "tj = ti" by simp
  with grown(5) assms(4,5) grown(3) show ?thesis
    by (simp add: table_at_map_table columns_ensure_columns)
qed

subsection \<open>Fields that are never read\<close>

lemma forget_fields [simp]:
  "doc (forget s) = doc s"
  "current_paragraph (forget s) = current_paragraph s"
  "in_code (forget s) = in_code s"
  "in_heading (forget s) = in_heading s"
  "heading_level (forget s) = heading_level s"
  "text_buffer (forget s) = text_buffer s"
  "current_table (forget s) = current_table s"
  "current_row (forget s) = current_row s"
  "current_cell (forget s) = current_cell s"
  "in_code_block (forget s) = in_code_block s"
  "current_language (forget s) = current_language s"
  "current_cell_index (forget s) = current_cell_index s"
  by (simp_all add: forget_def)

lemma forget_idem [simp]: "forget (forget s) = forget s"
  by (simp add: forget_def)

lemma forget_updates [simp]:
  "forget (s\<lparr>list_level := k\<rparr>) = forget s"
  "forget (s\<lparr>in_table_header := b\<rparr>) = forget s"
  "forget (s\<lparr>doc := d\<rparr>) = (forget s)\<lparr>doc := d\<rparr>"
  "forget (s\<lparr>current_paragraph := p\<rparr>) = (forget s)\<lparr>current_paragraph := p\<rparr>"
  "forget (s\<lparr>in_code := b\<rparr>) = (forget s)\<lparr>in_code := b\<rparr>"
  "forget (s\<lparr>in_heading := b\<rparr>) = (forget s)\<lparr>in_heading := b\<rparr>"
  "forget (s\<lparr>heading_level := n\<rparr>) = (forget s)\<lparr>heading_level := n\<rparr>"
  "forget (s\<lparr>text_buffer := t\<rparr>) = (forget s)\<lparr>text_buffer := t\<rparr>"
  "forget (s\<lparr>current_table := ct\<rparr>) = (forget s)\<lparr>current_table := ct\<rparr>"
  "forget (s\<lparr>current_row := cr\<rparr>) = (forget s)\<lparr>current_row := cr\<rparr>"
  "forget (s\<lparr>current_cell := cc\<rparr>) = (forget s)\<lparr>current_cell := cc\<rparr>"
  "forget (s\<lparr>in_code_block := b\<rparr>) = (forget s)\<lparr>in_code_block := b\<rparr>"
  "forget (s\<lparr>current_cell_index := ci\<rparr>) = (forget s)\<lparr>current_cell_index := ci\<rparr>"
  by (simp_all add: forget_def)

lemma flush_text_alt:
  "flushed s =
     (if strip (text_buffer s) = [] then s\<lparr>text_buffer := []\<rparr>
      else s\<lparr>doc := fst (flush_result (doc s) (current_paragraph s) (in_code s)
                            (in_code_block s) (text_buffer s)),
             current_paragraph := Some (snd (flush_result (doc s) (current_paragraph s) (in_code s)
                            (in_code_block s) (text_buffer s))),
             text_buffer := []\<rparr>)"
  by (simp add: flushed_def flush_result_def Let_def split: prod.splits)

lemma forget_flush_text: "flushed (forget s) = forget (flushed s)"
  by (simp add: flush_text_alt)

lemma flush_raises_forget [simp]: "flush_raises (forget s) = flush_raises s"
  by (simp add: flush_raises_def)

lemma forget_start_div: "start_div (forget s) attrs = map_sum id forget (start_div s attrs)"
  by (induction attrs)
     (auto simp: Let_def add_paragraph_def forget_flush_text flush_text_eq split: option.splits)

lemma forget_start_cell: "start_cell (forget s) = map_sum id forget (start_cell s)"
  by (simp add: start_cell_def Let_def split: option.splits prod.splits)

lemma forget_flush_text_as_heading:
  "flush_text_as_heading (forget s) = map_sum id forget (flush_text_as_heading s)"
  by (simp add: flush_text_as_heading_def split: sum.splits)

lemma forget_map_sum_idem [simp]:
  "map_sum id forget (map_sum id forget x) = map_sum id forget x"
  by (cases x) simp_all

lemma forget_handle_starttag:
  "map_sum id forget (handle_starttag (forget s) tag attrs)
     = map_sum id forget (handle_starttag s tag attrs)"
proof (cases tag rule: tag_cases)
  case 1
  then show ?thesis by (simp add: starttag_heading forget_flush_text after_flush_def)
next
  case 2
  then show ?thesis by (simp add: starttag_p forget_flush_text after_flush_def)
next
  case 3
  then show ?thesis by (simp add: starttag_code forget_flush_text after_flush_def)
next
  case 4
  then show ?thesis by (simp add: starttag_div forget_start_div)
next
  case 5
  then show ?thesis by (simp add: starttag_pre forget_flush_text after_flush_def)
next
  case 6
  then show ?thesis by (simp add: starttag_ul forget_flush_text after_flush_def)
next
  case 7
  then show ?thesis by (simp add: starttag_ol forget_flush_text after_flush_def)
next
  case 8
  then show ?thesis by (simp add: starttag_li forget_flush_text after_flush_def)
next
  case 9
  then show ?thesis by (simp add: starttag_table forget_flush_text after_flush_def)
next
  case 10
  then show ?thesis by (simp add: starttag_thead)
next
  case 11
  then show ?thesis by (simp add: starttag_tbody)
next
  case 12
  then show ?thesis by (simp add: starttag_tr split: option.splits)
next
  case 13
  then show ?thesis by (simp add: starttag_td forget_start_cell)
next
  case 14
  then show ?thesis by (simp add: starttag_th forget_start_cell)
next
  case 15
  then show ?thesis by (simp add: starttag_br)
next
  case 16
  then have "handle_starttag (forget s) tag attrs = Inr (forget s)" "handle_starttag s tag attrs = Inr s"
    by (rule starttag_other)+
  then show ?thesis by simp
qed

lemma forget_handle_endtag:
  "map_sum id forget (handle_endtag (forget s) tag) = map_sum id forget (handle_endtag s tag)"
proof (cases tag rule: tag_cases)
  case 1
  then show ?thesis by (simp add: endtag_heading forget_flush_text_as_heading split: sum.splits)
next
  case 2
  then show ?thesis by (simp add: endtag_p forget_flush_text after_flush_def)
next
  case 3
  then show ?thesis by (simp add: endtag_code forget_flush_text after_flush_def)
next
  case 4
  then show ?thesis by (simp add: endtag_div)
next
  case 5
  then show ?thesis by (simp add: endtag_pre forget_flush_text after_flush_def)
next
  case 6
  then show ?thesis by (simp add: endtag_ul)
next
  case 7
  then show ?thesis by (simp add: endtag_ol)
next
  case 8
  then show ?thesis by (simp add: endtag_li forget_flush_text after_flush_def)
next
  case 9
  then show ?thesis by (simp add: endtag_table)
next
  case 10
  then show ?thesis by (simp add: endtag_thead)
next
  case 11
  then show ?thesis by (simp add: endtag_tbody)
next
  case 12
  then show ?thesis by (simp add: endtag_tr)
next
  case 13
  then show ?thesis by (simp add: endtag_td forget_flush_text after_flush_def)
next
  case 14
  then show ?thesis by (simp add: endtag_th forget_flush_text after_flush_def)
next
  case 15
  then show ?thesis by (simp add: endtag_br)
next
  case 16
  then have "handle_endtag (forget s) tag = Inr (forget s)" "handle_endtag s tag = Inr s"
    by (rule endtag_other)+
  then show ?thesis by simp
qed

lemma forget_handle: "map_sum id forget (handle (forget s) e) = map_sum id forget (handle s e)"
  by (cases e) (simp_all add: forget_handle_starttag forget_handle_endtag handle_data_def)

lemma forget_handle_cong:
  assumes "forget s = forget t"
  shows "map_sum id forget (handle s e) = map_sum id forget (handle t e)"
proof -
  have "map_sum id forget (handle s e) = map_sum id forget (handle (forget s) e)"
    by (simp add: forget_handle)
  also have "\<dots> = map_sum id forget (handle (forget t) e)" by (simp add: assms)
  also have "\<dots> = map_sum id forget (handle t e)" by (simp add: forget_handle)
  finally show ?thesis .
qed

lemma forget_feed_cong:
  "forget s = forget t \<Longrightarrow> map_sum id forget (feed s es) = map_sum id forget (feed t es)"
proof (induction es arbitrary: s t)
  case Nil
  then show ?case by simp
next
  case (Cons e es)
  note h = forget_handle_cong [OF Cons.prems, of e]
  show ?case
  proof (cases "handle s e")
    case (Inl x)
    with h have "handle t e = Inl x" by (cases "handle t e") simp_all
    with Inl show ?thesis by simp
  next
    case (Inr s1)
    with h obtain t1 where t1: "handle t e = Inr t1" "forget s1 = forget t1"
      by (cases "handle t e") simp_all
    from Cons.IH [OF t1(2)] Inr t1(1) show ?thesis by simp
  qed
qed

lemma doc_flush_text_forget: "forget s = forget t \<Longrightarrow> doc (flushed s) = doc (flushed t)"
proof -
  assume a: "forget s = forget t"
  have "doc (flushed s) = doc (flushed (forget s))" by (simp add: forget_flush_text)
  also have "\<dots> = doc (flushed (forget t))" by (simp add: a)
  also have "\<dots> = doc (flushed t)" by (simp add: forget_flush_text)
  finally show ?thesis .
qed

lemma flush_raises_cong: "forget s = forget t \<Longrightarrow> flush_raises s = flush_raises t"
proof -
  assume a: "forget s = forget t"
  have "flush_raises s = flush_raises (forget s)" by simp
  also have "\<dots> = flush_raises (forget t)" by (simp only: a)
  also have "\<dots> = flush_raises t" by simp
  finally show ?thesis .
qed

lemma flush_text_forget_cong:
  assumes "forget s = forget t"
  shows "map_sum id doc (flush_text s) = map_sum id doc (flush_text t)"
  using flush_raises_cong [OF assms] doc_flush_text_forget [OF assms]
  by (simp add: flush_text_eq)

subsection \<open>The list level\<close>

lemma heading_not_list: "tag \<in> set heading_tags \<Longrightarrow> tag \<noteq> ''ul'' \<and> tag \<noteq> ''ol''"
  by (auto simp: heading_tags_def)

lemma list_level_handle_starttag:
  assumes "handle_starttag s tag attrs = Inr s'"
  shows "list_level s' = list_level s + list_delta (StartTag tag attrs)"
proof (cases tag rule: tag_cases)
  case 1
  from heading_not_list [OF 1] assms 1 show ?thesis by (auto simp: starttag_heading)
next
  case 2
  with assms show ?thesis by (auto simp: starttag_p)
next
  case 3
  with assms show ?thesis by (auto simp: starttag_code)
next
  case 4
  with assms have "start_div s attrs = Inr s'" by (simp add: starttag_div)
  from start_div_cases [OF this] 4 show ?thesis by auto
next
  case 5
  with assms show ?thesis by (auto simp: starttag_pre split: if_splits)
next
  case 6
  with assms show ?thesis by (auto simp: starttag_ul)
next
  case 7
  with assms show ?thesis by (auto simp: starttag_ol)
next
  case 8
  with assms show ?thesis by (auto simp: starttag_li)
next
  case 9
  with assms show ?thesis by (auto simp: starttag_table)
next
  case 10
  with assms show ?thesis by (auto simp: starttag_thead)
next
  case 11
  with assms show ?thesis by (auto simp: starttag_tbody)
next
  case 12
  with assms show ?thesis by (auto simp: starttag_tr split: option.splits)
next
  case 13
  with assms have "start_cell s = Inr s'" by (simp add: starttag_td)
  then have "list_level s' = list_level s" by (cases rule: start_cell_cases) simp_all
  with 13 show ?thesis by simp
next
  case 14
  with assms have "start_cell s = Inr s'" by (simp add: starttag_th)
  then have "list_level s' = list_level s" by (cases rule: start_cell_cases) simp_all
  with 14 show ?thesis by simp
next
  case 15
  with assms show ?thesis by (auto simp: starttag_br)
next
  case 16
  from 16(2) have "tag \<noteq> ''ul''" "tag \<noteq> ''ol''" by simp_all
  moreover from starttag_other [OF 16] assms have "s' = s" by simp
  ultimately show ?thesis by simp
qed

lemma list_level_handle_endtag:
  assumes "handle_endtag s tag = Inr s'"
  shows "list_level s' = list_level s + list_delta (EndTag tag)"
proof (cases tag rule: tag_cases)
  case 1
  from assms 1 obtain s1 where "flush_text_as_heading s = Inr s1" "s' = s1\<lparr>in_heading := False\<rparr>"
    by (auto simp: endtag_heading split: sum.splits)
  with flush_text_as_heading_result [of s s1] have "list_level s' = list_level s" by simp
  with heading_not_list [OF 1] show ?thesis by simp
next
  case 2
  with assms show ?thesis by (auto simp: endtag_p)
next
  case 3
  with assms show ?thesis by (auto simp: endtag_code)
next
  case 4
  with assms show ?thesis by (auto simp: endtag_div split: if_splits)
next
  case 5
  with assms show ?thesis by (auto simp: endtag_pre split: if_splits)
next
  case 6
  with assms show ?thesis by (auto simp: endtag_ul)
next
  case 7
  with assms show ?thesis by (auto simp: endtag_ol)
next
  case 8
  with assms show ?thesis by (auto simp: endtag_li)
next
  case 9
  with assms show ?thesis by (auto simp: endtag_table)
next
  case 10
  with assms show ?thesis by (auto simp: endtag_thead)
next
  case 11
  with assms show ?thesis by (auto simp: endtag_tbody)
next
  case 12
  with assms show ?thesis by (auto simp: endtag_tr)
next
  case 13
  with assms show ?thesis by (auto simp: endtag_td)
next
  case 14
  with assms show ?thesis by (auto simp: endtag_th)
next
  case 15
  with assms show ?thesis by (auto simp: endtag_br)
next
  case 16
  from 16(2) have "tag \<noteq> ''ul''" "tag \<noteq> ''ol''" by simp_all
  moreover from endtag_other [OF 16] assms have "s' = s" by simp
  ultimately show ?thesis by simp
qed

lemma list_level_handle: "handle s e = Inr s' \<Longrightarrow> list_level s' = list_level s + list_delta e"
  by (cases e) (auto simp: handle_data_def dest: list_level_handle_starttag list_level_handle_endtag)

lemma list_level_feed:
  "feed s es = Inr s' \<Longrightarrow> list_level s' = list_level s + sum_list (map list_delta es)"
proof (induction es arbitrary: s)
  case Nil
  then show ?case by simp
next
  case (Cons e es)
  then obtain s1 where 1: "handle s e = Inr s1" and 2: "feed s1 es = Inr s'"
    by (auto split: sum.splits)
  from list_level_handle [OF 1] Cons.IH [OF 2] show ?case by simp
qed

subsection \<open>Head-section tags\<close>

lemma handle_thead:
  "is_thead e \<Longrightarrow> map_sum id forget (handle s e) = Inr (forget s)"
  by (cases e) (simp_all add: starttag_thead endtag_thead)

lemma handle_thead_to_tbody:
  "is_thead e \<Longrightarrow> map_sum id forget (handle s (thead_to_tbody e)) = Inr (forget s)"
  by (cases e) (simp_all add: starttag_tbody endtag_tbody)

lemma thead_to_tbody_other: "\<not> is_thead e \<Longrightarrow> thead_to_tbody e = e"
  by (cases e) simp_all

lemma map_sum_forget_Inr:
  "map_sum id forget x = Inr u \<Longrightarrow> \<exists>s1. x = Inr s1 \<and> forget s1 = u"
  by (cases x) auto

lemma feed_thead_to_tbody:
  "forget s = forget t \<Longrightarrow>
   map_sum id forget (feed s (map thead_to_tbody es)) = map_sum id forget (feed t es)"
proof (induction es arbitrary: s t)
  case Nil
  then show ?case by simp
next
  case (Cons e es)
  show ?case
  proof (cases "is_thead e")
    case True
    from map_sum_forget_Inr [OF handle_thead_to_tbody [OF True, of s]]
    obtain s1 where s1: "handle s (thead_to_tbody e) = Inr s1" "forget s1 = forget s" by blast
    from map_sum_forget_Inr [OF handle_thead [OF True, of t]]
    obtain t1 where t1: "handle t e = Inr t1" "forget t1 = forget t" by blast
    from s1(2) t1(2) Cons.prems have "forget s1 = forget t1" by simp
    from Cons.IH [OF this] s1(1) t1(1) show ?thesis by simp
  next
    case False
    note h = forget_handle_cong [OF Cons.prems, of e]
    show ?thesis
    proof (cases "handle s e")
      case (Inl x)
      with h have "handle t e = Inl x" by (cases "handle t e") simp_all
      with Inl False show ?thesis by (simp add: thead_to_tbody_other)
    next
      case (Inr s1)
      with h obtain t1 where t1: "handle t e = Inr t1" "forget s1 = forget t1"
        by (cases "handle t e") simp_all
      from Cons.IH [OF t1(2)] Inr t1(1) False show ?thesis by (simp add: thead_to_tbody_other)
    qed
  qed
qed

lemma feed_without_thead:
  "forget s = forget t \<Longrightarrow>
   map_sum id forget (feed s (filter (\<lambda>e. \<not> is_thead e) es)) = map_sum id forget (feed t es)"
proof (induction es arbitrary: s t)
  case Nil
  then show ?case by simp
next
  case (Cons e es)
  show ?case
  proof (cases "is_thead e")
    case True
    from map_sum_forget_Inr [OF handle_thead [OF True, of t]]
    obtain t1 where t1: "handle t e = Inr t1" "forget t1 = forget t" by blast
    from t1(2) Cons.prems have "forget s = forget t1" by simp
    from Cons.IH [OF this] t1(1) True show ?thesis by simp
  next
    case False
    note h = forget_handle_cong [OF Cons.prems, of e]
    show ?thesis
    proof (cases "handle s e")
      case (Inl x)
      with h have "handle t e = Inl x" by (cases "handle t e") simp_all
      with Inl False show ?thesis by simp
    next
      case (Inr s1)
      with h obtain t1 where t1: "handle t e = Inr t1" "forget s1 = forget t1"
        by (cases "handle t e") simp_all
      from Cons.IH [OF t1(2)] Inr t1(1) False show ?thesis by simp
    qed
  qed
qed

lemma html_to_docx_forget:
  assumes "map_sum id forget (feed (parser_init d0) es) = map_sum id forget (feed (parser_init d0) es')"
  shows "html_to_docx es d0 = html_to_docx es' d0"
proof (cases "feed (parser_init d0) es")
  case (Inl x)
  with assms have "feed (parser_init d0) es' = Inl x"
    by (cases "feed (parser_init d0) es'") simp_all
  with Inl show ?thesis by (simp add: html_to_docx_def)
next
  case (Inr s)
  with assms obtain t where t: "feed (parser_init d0) es' = Inr t" "forget s = forget t"
    by (cases "feed (parser_init d0) es'") simp_all
  from flush_text_forget_cong [OF t(2)] Inr t(1) show ?thesis by (simp add: html_to_docx_def)
qed

subsection \<open>The characters of a document\<close>

lemma sum_list_update_mset:
  fixes f :: "'a \<Rightarrow> 'b multiset"
  shows "i < length xs \<Longrightarrow>
         sum_list (map f (xs[i := y])) + f (xs ! i) = sum_list (map f xs) + f y"
proof (induction xs arbitrary: i)
  case Nil
  then show ?case by simp
next
  case (Cons x xs)
  show ?case
  proof (cases i)
    case 0
    then show ?thesis by (simp add: ac_simps)
  next
    case (Suc j)
    with Cons.prems have "j < length xs" by simp
    from Cons.IH [OF this] Suc show ?thesis by (simp add: ac_simps)
  qed
qed

lemma mset_exchange:
  fixes X :: "'a multiset"
  assumes "R + X = T + U" and "C + U = R + F"
  shows "X + C = T + F"
proof -
  have "(X + C) + (R + U) = (R + X) + (C + U)" by (simp add: ac_simps)
  also have "\<dots> = (T + U) + (R + F)" by (simp only: assms)
  also have "\<dots> = (T + F) + (R + U)" by (simp add: ac_simps)
  finally show ?thesis by simp
qed

lemma par_chars_empty [simp]: "par_chars empty_paragraph = {#}"
  by (simp add: par_chars_def empty_paragraph_def)

lemma par_chars_cleared [simp]: "par_chars cleared_cell = {#}"
  by (simp add: par_chars_def cleared_cell_def empty_paragraph_def plain_run_def nonws_def)

lemma row_chars_replicate [simp]: "sum_list (map par_chars (replicate n empty_paragraph)) = {#}"
  by (induction n) simp_all

lemma table_chars_add_row [simp]: "table_chars (add_row t) = table_chars t"
  by (simp add: table_chars_def add_row_def row_chars_replicate [simplified])

lemma table_chars_add_column [simp]: "table_chars (add_column t) = table_chars t"
  by (simp add: table_chars_def add_column_def comp_def)

lemma table_chars_ensure_columns [simp]: "table_chars (ensure_columns t idx) = table_chars t"
proof (induction t idx rule: ensure_columns.induct)
  case (1 t idx)
  show ?case
  proof (cases "columns t \<le> idx")
    case True
    with 1 show ?thesis by (simp add: ensure_columns.simps [of t])
  next
    case False
    then show ?thesis by (simp add: ensure_columns.simps [of t])
  qed
qed

lemma table_chars_map_cell:
  assumes "ri < length (rows t)" and "ci < length (rows t ! ri)"
  shows "table_chars (map_cell ri ci f t) + par_chars (rows t ! ri ! ci)
           = table_chars t + par_chars (f (rows t ! ri ! ci))"
proof -
  define row where "row = rows t ! ri"
  define row' where "row' = row[ci := f (row ! ci)]"
  define g where "g = (\<lambda>r. sum_list (map par_chars r))"
  from assms have A: "table_chars (map_cell ri ci f t) = sum_list (map g ((rows t)[ri := row']))"
    by (simp add: table_chars_def map_cell_def row_def row'_def g_def)
  from sum_list_update_mset [OF assms(1), of g row']
  have "sum_list (map g ((rows t)[ri := row'])) + g row = table_chars t + g row'"
    by (simp add: table_chars_def row_def g_def)
  then have B: "g row + sum_list (map g ((rows t)[ri := row'])) = table_chars t + g row'"
    by (simp only: add.commute)
  from assms(2) have "ci < length row" by (simp add: row_def)
  from sum_list_update_mset [OF this, of par_chars "f (row ! ci)"]
  have "g row' + par_chars (row ! ci) = g row + par_chars (f (row ! ci))"
    by (simp add: g_def row'_def)
  then have C: "par_chars (row ! ci) + g row' = g row + par_chars (f (row ! ci))"
    by (simp only: add.commute)
  from mset_exchange [OF B C] A show ?thesis by (simp add: row_def)
qed

lemma doc_chars_append [simp]: "doc_chars (d @ d') = doc_chars d + doc_chars d'"
  by (simp add: doc_chars_def)

lemma doc_chars_single [simp]: "doc_chars [b] = block_chars b"
  by (simp add: doc_chars_def)

lemma doc_chars_map_table:
  assumes "ti < length d" and "d ! ti = Tbl t"
  shows "doc_chars (map_table ti f d) + table_chars t = doc_chars d + table_chars (f t)"
  using sum_list_update_mset [OF assms(1), of block_chars "Tbl (f t)"] assms
  by (simp add: doc_chars_def map_table_def)

lemma doc_chars_map_table_same:
  assumes "\<And>t. table_chars (f t) = table_chars t"
  shows "doc_chars (map_table ti f d) = doc_chars d"
proof (cases "ti < length d")
  case False
  then show ?thesis by (simp add: map_table_def)
next
  case True
  show ?thesis
  proof (cases "d ! ti")
    case (Para q)
    with True show ?thesis by (simp add: map_table_def)
  next
    case (Tbl t)
    from doc_chars_map_table [OF True Tbl, of f] assms show ?thesis by simp
  qed
qed

lemma doc_chars_map_paragraph:
  assumes "valid_pref d p"
  shows "doc_chars (map_paragraph p f d) + par_chars (par_at d p)
           = doc_chars d + par_chars (f (par_at d p))"
proof (cases p)
  case (BodyPara i)
  with assms obtain q where q: "i < length d" "d ! i = Para q"
    by (cases "d ! i") (auto simp: valid_pref_def)
  from sum_list_update_mset [OF q(1), of block_chars "Para (f q)"] q BodyPara
  show ?thesis by (simp add: doc_chars_def map_paragraph_def par_at_def)
next
  case (CellPara ti ri ci)
  with assms obtain t where t: "ti < length d" "d ! ti = Tbl t" "ri < length (rows t)"
    "ci < length (rows t ! ri)"
    by (cases "d ! ti") (auto simp: valid_pref_def)
  from t have pa: "par_at d (CellPara ti ri ci) = rows t ! ri ! ci"
    by (simp add: par_at_def table_at_def)
  from doc_chars_map_table [OF t(1,2), of "map_cell ri ci f"] table_chars_map_cell [OF t(3,4), of f]
  have "doc_chars (map_table ti (map_cell ri ci f) d) + table_chars t + par_chars (rows t ! ri ! ci)
          = doc_chars d + table_chars t + par_chars (f (rows t ! ri ! ci))"
    by (simp add: ac_simps)
  then show ?thesis by (simp add: CellPara map_paragraph_def pa)
qed

lemma doc_chars_add_run:
  assumes "valid_pref d p"
  shows "doc_chars (put_run p r d) = doc_chars d + nonws (run_text r)"
proof -
  from doc_chars_map_paragraph [OF assms, of "\<lambda>q. q\<lparr>p_runs := p_runs q @ [r]\<rparr>"]
  have "doc_chars (put_run p r d) + par_chars (par_at d p)
          = doc_chars d + nonws (run_text r) + par_chars (par_at d p)"
    by (simp add: put_run_def par_chars_def ac_simps)
  then show ?thesis by simp
qed

lemma doc_chars_append_pPr:
  assumes "valid_pref d p"
  shows "doc_chars (append_pPr p xs d) = doc_chars d"
proof -
  from doc_chars_map_paragraph [OF assms, of "\<lambda>q. q\<lparr>pPr := pPr q @ xs\<rparr>"]
  have "doc_chars (append_pPr p xs d) + par_chars (par_at d p)
          = doc_chars d + par_chars (par_at d p)"
    by (simp add: append_pPr_def par_chars_def)
  then show ?thesis by simp
qed

subsection \<open>No handler drops a character, except the clearing of a cell\<close>

lemma nonws_Nil [simp]: "nonws [] = {#}"
  by (simp add: nonws_def)

lemma held_chars_flush_text:
  assumes "parser_ok s"
  shows "held_chars (flushed s) = held_chars s"
proof (cases "strip (text_buffer s) = []")
  case True
  then show ?thesis by (simp add: flush_text_blank held_chars_def nonws_blank)
next
  case False
  show ?thesis
  proof (cases "current_paragraph s")
    case None
    let ?d = "doc s @ [Para (empty_paragraph\<lparr>p_style := Default_Style\<rparr>)]"
    let ?p = "BodyPara (length (doc s))"
    have v: "valid_pref ?d ?p" by (rule valid_pref_new)
    have e: "doc_chars ?d = doc_chars (doc s)"
      by (simp add: par_chars_def empty_paragraph_def)
    from False None v e show ?thesis
      by (simp add: flush_text_alt flush_result_def add_paragraph_def held_chars_def
                    doc_chars_add_run doc_chars_append_pPr valid_pref_add_run
                    code_block_run_def inline_code_run_def plain_run_def)
  next
    case (Some p)
    with assms have v: "valid_pref (doc s) p" by (simp add: parser_ok_def)
    from False Some v show ?thesis
      by (simp add: flush_text_alt flush_result_def held_chars_def
                    doc_chars_add_run doc_chars_append_pPr valid_pref_add_run
                    code_block_run_def inline_code_run_def plain_run_def)
  qed
qed

lemma held_chars_updates [simp]:
  "held_chars (s\<lparr>in_code := b\<rparr>) = held_chars s"
  "held_chars (s\<lparr>in_heading := b\<rparr>) = held_chars s"
  "held_chars (s\<lparr>heading_level := n\<rparr>) = held_chars s"
  "held_chars (s\<lparr>list_level := k\<rparr>) = held_chars s"
  "held_chars (s\<lparr>current_paragraph := p\<rparr>) = held_chars s"
  "held_chars (s\<lparr>current_table := ct\<rparr>) = held_chars s"
  "held_chars (s\<lparr>current_row := cr\<rparr>) = held_chars s"
  "held_chars (s\<lparr>current_cell := cc\<rparr>) = held_chars s"
  "held_chars (s\<lparr>in_table_header := b\<rparr>) = held_chars s"
  "held_chars (s\<lparr>in_code_block := b\<rparr>) = held_chars s"
  "held_chars (s\<lparr>current_cell_index := ci\<rparr>) = held_chars s"
  by (simp_all add: held_chars_def)

lemma held_chars_new_block:
  "block_chars b = {#} \<Longrightarrow> held_chars (s\<lparr>doc := doc s @ [b]\<rparr>) = held_chars s"
  by (simp add: held_chars_def)

lemma block_chars_new [simp]:
  "block_chars (Para (empty_paragraph\<lparr>p_style := st\<rparr>)) = {#}"
  "block_chars (Tbl (empty_table\<lparr>tbl_style := ts\<rparr>)) = {#}"
  by (simp_all add: par_chars_def table_chars_def empty_paragraph_def empty_table_def)

lemma row_cells_par_at:
  "idx < length (row_cells d rt ri) \<Longrightarrow> par_at d (CellPara rt ri idx) = row_cells d rt ri ! idx"
  by (auto simp: row_cells_def par_at_def Let_def split: if_splits)

lemma held_chars_start_cell:
  assumes "start_cell s = Inr s'"
  shows "held_chars s' + opened_cell_chars s = held_chars s"
  using assms
proof (cases rule: start_cell_cases)
  case same
  then show ?thesis by (simp add: opened_cell_chars_def)
next
  case (opened rt ri ti idx)
  let ?d1 = "map_table ti (\<lambda>t. ensure_columns t idx) (doc s)"
  have d1: "doc_chars ?d1 = doc_chars (doc s)"
    by (rule doc_chars_map_table_same) simp
  from opened(4) have v: "valid_pref ?d1 (CellPara rt ri idx)" by (rule row_cells_valid)
  have "set_cell_text_empty rt ri idx ?d1 = map_paragraph (CellPara rt ri idx) (\<lambda>_. cleared_cell) ?d1"
    by (simp add: set_cell_text_empty_def map_paragraph_def)
  with doc_chars_map_paragraph [OF v, of "\<lambda>_. cleared_cell"] row_cells_par_at [OF opened(4)] d1
  have "doc_chars (set_cell_text_empty rt ri idx ?d1) + par_chars (row_cells ?d1 rt ri ! idx)
          = doc_chars (doc s)"
    by simp
  moreover from opened have "opened_cell_chars s = par_chars (row_cells ?d1 rt ri ! idx)"
    by (simp add: opened_cell_chars_def Let_def)
  ultimately show ?thesis using opened(5) by (simp add: held_chars_def ac_simps)
next
  case (grown rt ri ti idx)
  have "doc_chars (map_table ti (\<lambda>t. ensure_columns t idx) (doc s)) = doc_chars (doc s)"
    by (rule doc_chars_map_table_same) simp
  moreover from grown have "opened_cell_chars s = {#}"
    by (simp add: opened_cell_chars_def Let_def)
  ultimately show ?thesis using grown(5) by (simp add: held_chars_def)
qed

lemma heading_not_cell: "tag \<in> set heading_tags \<Longrightarrow> tag \<noteq> ''td'' \<and> tag \<noteq> ''th''"
  by (auto simp: heading_tags_def)

lemma new_block_chars [simp]:
  "par_chars (empty_paragraph\<lparr>p_style := st\<rparr>) = {#}"
  "table_chars (empty_table\<lparr>tbl_style := ts\<rparr>) = {#}"
  by (simp_all add: par_chars_def table_chars_def empty_paragraph_def empty_table_def)

lemma doc_chars_Nil [simp]: "doc_chars [] = {#}"
  by (simp add: doc_chars_def)

lemma held_chars_handle_starttag:
  assumes "parser_ok s" and "handle_starttag s tag attrs = Inr s'"
  shows "held_chars s' + cleared_chars s (StartTag tag attrs) = held_chars s"
proof -
  note f = held_chars_flush_text [OF assms(1)]
  show ?thesis
  proof (cases tag rule: tag_cases)
  case 1
  from heading_not_cell [OF 1] assms(2) 1 f show ?thesis by (auto simp: starttag_heading)
next
  case 2
  with assms(2) f show ?thesis by (auto simp: starttag_p held_chars_def)
next
  case 3
  with assms(2) f show ?thesis by (auto simp: starttag_code)
next
  case 4
  with assms(2) have "start_div s attrs = Inr s'" by (simp add: starttag_div)
  from start_div_cases [OF this] 4 f show ?thesis by (auto simp: held_chars_def)
next
  case 5
  with assms(2) f show ?thesis by (auto simp: starttag_pre held_chars_def split: if_splits)
next
  case 6
  with assms(2) f show ?thesis by (auto simp: starttag_ul)
next
  case 7
  with assms(2) f show ?thesis by (auto simp: starttag_ol)
next
  case 8
  with assms(2) f show ?thesis by (auto simp: starttag_li held_chars_def)
next
  case 9
  with assms(2) f show ?thesis by (auto simp: starttag_table held_chars_def)
next
  case 10
  with assms(2) show ?thesis by (auto simp: starttag_thead)
next
  case 11
  with assms(2) show ?thesis by (auto simp: starttag_tbody)
next
  case 12
  with assms(2) show ?thesis
    by (auto simp: starttag_tr held_chars_def doc_chars_map_table_same split: option.splits)
next
  case 13
  with assms(2) have "start_cell s = Inr s'" by (simp add: starttag_td)
  from held_chars_start_cell [OF this] 13 show ?thesis by simp
next
  case 14
  with assms(2) have "start_cell s = Inr s'" by (simp add: starttag_th)
  from held_chars_start_cell [OF this] 14 show ?thesis by simp
next
  case 15
  with assms(2) show ?thesis by (auto simp: starttag_br held_chars_def nonws_def isspace_def)
next
  case 16
  from 16(2) have "tag \<noteq> ''td''" "tag \<noteq> ''th''" by simp_all
  moreover from starttag_other [OF 16] assms(2) have "s' = s" by simp
  ultimately show ?thesis by simp
  qed
qed

lemma held_chars_handle_endtag:
  assumes "parser_ok s" and "handle_endtag s tag = Inr s'"
  shows "held_chars s' = held_chars s"
  using assms(2)
proof (cases rule: handle_endtag_cases)
  case (heading s1)
  from flush_text_as_heading_result [OF heading(2)] heading(3)
  show ?thesis
    by (simp add: held_chars_def par_chars_def plain_run_def nonws_strip nonws_blank)
next
  case flush
  with held_chars_flush_text [OF assms(1)] show ?thesis by simp
next
  case code
  with held_chars_flush_text [OF assms(1)] show ?thesis by simp
next
  case div
  then show ?thesis by simp
next
  case list
  then show ?thesis by simp
next
  case table
  then show ?thesis by simp
next
  case row
  then show ?thesis by simp
next
  case cell
  with held_chars_flush_text [OF assms(1)] show ?thesis by simp
next
  case same
  then show ?thesis by simp
qed

lemma held_chars_handle:
  assumes "parser_ok s" and "handle s e = Inr s'"
  shows "held_chars s' + cleared_chars s e = held_chars s + data_chars e"
proof (cases e)
  case (StartTag tag attrs)
  with assms held_chars_handle_starttag [of s tag attrs s'] show ?thesis by simp
next
  case (EndTag tag)
  with assms held_chars_handle_endtag [of s tag s'] show ?thesis by simp
next
  case (Data data)
  with assms(2) show ?thesis by (auto simp: handle_data_def held_chars_def nonws_append)
qed

lemma held_chars_feed:
  "parser_ok s \<Longrightarrow> feed s es = Inr s' \<Longrightarrow>
   held_chars s' + discarded s es = held_chars s + sum_list (map data_chars es)"
proof (induction es arbitrary: s)
  case Nil
  then show ?case by simp
next
  case (Cons e es)
  from Cons.prems(2) obtain s1 where 1: "handle s e = Inr s1" and 2: "feed s1 es = Inr s'"
    by (auto split: sum.splits)
  from Cons.IH [OF ok_handle [OF Cons.prems(1) 1] 2]
  have "held_chars s' + discarded s1 es + cleared_chars s e
          = held_chars s1 + cleared_chars s e + sum_list (map data_chars es)"
    by (simp add: ac_simps)
  also from held_chars_handle [OF Cons.prems(1) 1]
  have "\<dots> = held_chars s + data_chars e + sum_list (map data_chars es)" by simp
  finally show ?case using 1 by (simp add: ac_simps)
qed

lemma cleared_chars_other: "\<not> is_start_cell e \<Longrightarrow> cleared_chars s e = {#}"
  by (cases e) simp_all

lemma discarded_no_cells: "\<forall>e\<in>set es. \<not> is_start_cell e \<Longrightarrow> discarded s es = {#}"
  by (induction es arbitrary: s) (auto simp: cleared_chars_other split: sum.splits)

lemma html_to_docx_chars:
  assumes "html_to_docx es d0 = Inr d"
  shows "doc_chars d + discarded (parser_init d0) es = doc_chars d0 + sum_list (map data_chars es)"
proof -
  from assms obtain s where s: "feed (parser_init d0) es = Inr s" and d: "d = doc (flushed s)"
    by (auto simp: html_to_docx_def flush_text_eq split: sum.splits if_splits)
  from ok_feed [OF ok_init s] have ok: "parser_ok s" .
  have "held_chars (flushed s) = doc_chars d" by (simp add: held_chars_def d)
  with held_chars_flush_text [OF ok] have "held_chars s = doc_chars d" by simp
  moreover have "held_chars (parser_init d0) = doc_chars d0"
    by (simp add: held_chars_def parser_init_def)
  ultimately show ?thesis using held_chars_feed [OF ok_init s] by simp
qed

subsection \<open>Code in a paragraph of its own\<close>





subsection \<open>Events that only buffer\<close>





section \<open>The claims\<close>

text \<open>
  C3.  Translating the fragment
  \<^verbatim>\<open><table><tr><td>a</td><td>b</td></tr><tr><td>c</td></tr></table>\<close>
  raises nothing and gives a document holding exactly one table, with two
  rows and two grid columns (the largest number of cells in a row).  Each
  opened cell holds the empty run of \<^verbatim>\<open>cell.text = ''\<close> followed by the
  run of its text; the second cell of the second row was never opened and is
  an empty paragraph with no run.
\<close>

theorem table_shape_example:
  "translate
     [StartTag ''table'' [],
        StartTag ''tr'' [],
          StartTag ''td'' [], Data ''a'', EndTag ''td'',
          StartTag ''td'' [], Data ''b'', EndTag ''td'',
        EndTag ''tr'',
        StartTag ''tr'' [],
          StartTag ''td'' [], Data ''c'', EndTag ''td'',
        EndTag ''tr'',
      EndTag ''table'']
   = Inr [Tbl \<lparr>tbl_style = Some ''Table Grid'', columns = 2,
               rows = [[cleared_cell\<lparr>p_runs := [plain_run [], plain_run ''a'']\<rparr>,
                        cleared_cell\<lparr>p_runs := [plain_run [], plain_run ''b'']\<rparr>],
                       [cleared_cell\<lparr>p_runs := [plain_run [], plain_run ''c'']\<rparr>,
                        empty_paragraph]]\<rparr>]"
  by code_simp

text \<open>
  C7.  Translating \<^verbatim>\<open><h2>Title</h2>\<close> gives a document that holds one
  block, a heading of level 2 whose text is "Title", and no plain paragraph.
  In any state, a heading end tag that returns leaves
  \<^verbatim>\<open>current_paragraph\<close> at \<open>None\<close>, the buffer empty and the heading flag
  off, and the document grows by at most one block: a heading of the stored
  level with the stripped buffer as its text, when that is not empty.
\<close>

theorem heading_round_trip:
  assumes "tag \<in> set heading_tags" and "handle_endtag s tag = Inr s'"
  shows "translate [StartTag ''h2'' [], Data ''Title'', EndTag ''h2'']
           = Inr [Para \<lparr>p_style = Heading 2, p_runs = [plain_run ''Title''], pPr = []\<rparr>]
         \<and> current_paragraph s' = None \<and> text_buffer s' = [] \<and> in_heading s' = False
         \<and> doc s' = doc s @
              (if strip (text_buffer s) = [] then []
               else [Para \<lparr>p_style = (if heading_level s = 0 then Title else Heading (heading_level s)),
                             p_runs = [plain_run (strip (text_buffer s))], pPr = []\<rparr>])"
proof -
  have 1: "translate [StartTag ''h2'' [], Data ''Title'', EndTag ''h2'']
           = Inr [Para \<lparr>p_style = Heading 2, p_runs = [plain_run ''Title''], pPr = []\<rparr>]"
    by code_simp
  from assms have 2: "current_paragraph s' = None \<and> text_buffer s' = [] \<and> in_heading s' = False
         \<and> doc s' = doc s @
              (if strip (text_buffer s) = [] then []
               else [Para \<lparr>p_style = (if heading_level s = 0 then Title else Heading (heading_level s)),
                             p_runs = [plain_run (strip (text_buffer s))], pPr = []\<rparr>])"
    by (auto simp: handle_endtag_def flush_text_as_heading_def add_heading_def
             split: if_splits sum.splits)
  from 1 2 show ?thesis by simp
qed

theorem heading_round_trip_witness:
  "''h2'' \<in> set heading_tags
   \<and> feed (parser_init []) [StartTag ''h2'' [], Data ''  Title '']
       = Inr ((parser_init [])\<lparr>in_heading := True, heading_level := 2, text_buffer := ''  Title ''\<rparr>)
   \<and> handle_endtag ((parser_init [])\<lparr>in_heading := True, heading_level := 2, text_buffer := ''  Title ''\<rparr>) ''h2''
       = Inr ((parser_init [])\<lparr>heading_level := 2,
                doc := [Para \<lparr>p_style = Heading 2, p_runs = [plain_run ''Title''], pPr = []\<rparr>]\<rparr>)
   \<and> current_paragraph ((parser_init [])\<lparr>heading_level := 2,
                doc := [Para \<lparr>p_style = Heading 2, p_runs = [plain_run ''Title''], pPr = []\<rparr>]\<rparr>) = None"
proof -
  let ?s = "(parser_init [])\<lparr>in_heading := True, heading_level := 2, text_buffer := ''  Title ''\<rparr>"
  let ?s' = "(parser_init [])\<lparr>heading_level := 2,
                doc := [Para \<lparr>p_style = Heading 2, p_runs = [plain_run ''Title''], pPr = []\<rparr>]\<rparr>"
  have t: "''h2'' \<in> set heading_tags" by (simp add: heading_tags_def)
  have f: "feed (parser_init []) [StartTag ''h2'' [], Data ''  Title ''] = Inr ?s" by code_simp
  have h: "handle_endtag ?s ''h2'' = Inr ?s'" by code_simp
  from heading_round_trip [OF t h] have "current_paragraph ?s' = None" by (rule conjunct1 [OF conjunct2])
  with t f h show ?thesis by (intro conjI)
qed

text \<open>
  C5 (amended).  In every state the parser reaches from a new parser, an
  end tag never raises because of what is open or not open: it returns
  whenever the buffer is blank or holds no control character, and the only
  error it can raise is the ValueError of the document builder, when it
  flushes a non-blank buffer that holds a control character.  A start-cell
  event (\<^verbatim>\<open>td\<close> or \<^verbatim>\<open>th\<close>) never raises; met while there is no current
  row it returns the state unchanged, so it creates no table structure and
  keeps the buffer.  In particular \<^verbatim>\<open><td>orphan</td>\<close> translates without
  an error into a document with no table, where "orphan" is the one run of a
  plain paragraph.
\<close>

theorem stray_cell_tolerated:
  assumes "feed (parser_init d0) es = Inr s"
  shows "((strip (text_buffer s) = [] \<or> xml_compatible (text_buffer s))
            \<longrightarrow> (\<exists>s'. handle_endtag s tag = Inr s'))
       \<and> (handle_endtag s tag = Inl e
            \<longrightarrow> e = ValueError \<and> strip (text_buffer s) \<noteq> [] \<and> \<not> xml_compatible (text_buffer s))
       \<and> (\<exists>s'. handle_starttag s ''td'' attrs = Inr s')
       \<and> (\<exists>s'. handle_starttag s ''th'' attrs = Inr s')
       \<and> (current_row s = None \<longrightarrow>
            handle_starttag s ''td'' attrs = Inr s \<and> handle_starttag s ''th'' attrs = Inr s)
       \<and> translate [StartTag ''td'' [], Data ''orphan'', EndTag ''td'']
            = Inr [Para \<lparr>p_style = Default_Style, p_runs = [plain_run ''orphan''], pPr = []\<rparr>]"
proof -
  from ok_feed [OF ok_init assms] have ok: "parser_ok s" .
  have 1: "(strip (text_buffer s) = [] \<or> xml_compatible (text_buffer s))
            \<longrightarrow> (\<exists>s'. handle_endtag s tag = Inr s')"
  proof
    assume "strip (text_buffer s) = [] \<or> xml_compatible (text_buffer s)"
    then have "\<not> flush_raises s" by (auto simp: flush_raises_def)
    with ok show "\<exists>s'. handle_endtag s tag = Inr s'" by (rule handle_endtag_returns)
  qed
  have 2: "handle_endtag s tag = Inl e
            \<longrightarrow> e = ValueError \<and> strip (text_buffer s) \<noteq> [] \<and> \<not> xml_compatible (text_buffer s)"
  proof
    assume "handle_endtag s tag = Inl e"
    from handle_endtag_raises [OF ok this]
    show "e = ValueError \<and> strip (text_buffer s) \<noteq> [] \<and> \<not> xml_compatible (text_buffer s)"
      by (simp add: flush_raises_def)
  qed
  from start_cell_returns [OF ok]
  have 3: "\<exists>s'. handle_starttag s ''td'' attrs = Inr s'"
    and 4: "\<exists>s'. handle_starttag s ''th'' attrs = Inr s'"
    by (simp_all add: starttag_td starttag_th)
  have 5: "current_row s = None \<longrightarrow>
            handle_starttag s ''td'' attrs = Inr s \<and> handle_starttag s ''th'' attrs = Inr s"
    by (simp add: starttag_td starttag_th start_cell_def)
  have 6: "translate [StartTag ''td'' [], Data ''orphan'', EndTag ''td'']
            = Inr [Para \<lparr>p_style = Default_Style, p_runs = [plain_run ''orphan''], pPr = []\<rparr>]"
    by code_simp
  from 1 2 3 4 5 6 show ?thesis by (intro conjI)
qed

theorem stray_cell_tolerated_witness:
  "feed (parser_init []) [StartTag ''td'' [], Data ''orphan'']
     = Inr ((parser_init [])\<lparr>text_buffer := ''orphan''\<rparr>)
   \<and> xml_compatible (text_buffer ((parser_init [])\<lparr>text_buffer := ''orphan''\<rparr>))
   \<and> current_row ((parser_init [])\<lparr>text_buffer := ''orphan''\<rparr>) = None
   \<and> (\<exists>s'. handle_endtag ((parser_init [])\<lparr>text_buffer := ''orphan''\<rparr>) ''td'' = Inr s')
   \<and> handle_starttag ((parser_init [])\<lparr>text_buffer := ''orphan''\<rparr>) ''td'' []
       = Inr ((parser_init [])\<lparr>text_buffer := ''orphan''\<rparr>)
   \<and> feed (parser_init []) [StartTag ''td'' [], Data [CHR ''a'', CHR 0x01]]
       = Inr ((parser_init [])\<lparr>text_buffer := [CHR ''a'', CHR 0x01]\<rparr>)
   \<and> handle_endtag ((parser_init [])\<lparr>text_buffer := [CHR ''a'', CHR 0x01]\<rparr>) ''td'' = Inl ValueError
   \<and> \<not> xml_compatible (text_buffer ((parser_init [])\<lparr>text_buffer := [CHR ''a'', CHR 0x01]\<rparr>))"
proof -
  let ?s = "(parser_init [])\<lparr>text_buffer := ''orphan''\<rparr>"
  let ?c = "(parser_init [])\<lparr>text_buffer := [CHR ''a'', CHR 0x01]\<rparr>"
  have f: "feed (parser_init []) [StartTag ''td'' [], Data ''orphan''] = Inr ?s" by code_simp
  have x: "xml_compatible (text_buffer ?s)" by code_simp
  have r: "current_row ?s = None" by code_simp
  note t = stray_cell_tolerated [OF f, of "''td''" ValueError "[]"]
  from t x have 1: "\<exists>s'. handle_endtag ?s ''td'' = Inr s'" by blast
  from t r have 2: "handle_starttag ?s ''td'' [] = Inr ?s" by blast
  have g: "feed (parser_init []) [StartTag ''td'' [], Data [CHR ''a'', CHR 0x01]] = Inr ?c"
    by code_simp
  have h: "handle_endtag ?c ''td'' = Inl ValueError" by code_simp
  from stray_cell_tolerated [OF g, of "''td''" ValueError "[]"] h
  have 3: "\<not> xml_compatible (text_buffer ?c)" by blast
  from f x r 1 2 g h 3 show ?thesis by (intro conjI)
qed

theorem stray_end_cell_raises:
  "translate [StartTag ''td'' [], Data [CHR ''a'', CHR 0x01], EndTag ''td''] = Inl ValueError
   \<and> translate [Data [CHR ''a'', CHR 0x01], EndTag ''td''] = Inl ValueError"
  by code_simp

text \<open>
  C6.  In a state of the parser, \<^verbatim>\<open>flush_text\<close> on an empty or
  whitespace-only buffer returns and changes nothing but the buffer, which
  it empties: no paragraph and no run is created.  On any other buffer it
  returns exactly when the buffer holds no control character (it raises the
  builder's ValueError otherwise), and when it returns it has appended one
  run to the paragraph it writes to, the text of that run is the whole
  buffer, untrimmed, and the buffer is empty.  Translating \<^verbatim>\<open><p></p>\<close>
  gives the one paragraph the start tag creates, with no run.
\<close>

theorem flush_text_blank_or_untrimmed:
  assumes "parser_ok s"
  shows "(strip (text_buffer s) = [] \<longrightarrow> flush_text s = Inr (s\<lparr>text_buffer := []\<rparr>))
       \<and> (strip (text_buffer s) \<noteq> [] \<and> flush_text s = Inr s' \<longrightarrow>
            (\<exists>p. current_paragraph s' = Some p
                 \<and> p_runs (par_at (doc s') p) = p_runs (flush_target s) @ [flushed_run s]
                 \<and> run_text (flushed_run s) = text_buffer s
                 \<and> text_buffer s' = []))
       \<and> ((\<exists>s''. flush_text s = Inr s'')
            \<longleftrightarrow> strip (text_buffer s) = [] \<or> xml_compatible (text_buffer s))
       \<and> (flush_text s = Inl e \<longrightarrow> e = ValueError)
       \<and> translate [StartTag ''p'' [], EndTag ''p''] = Inr [Para empty_paragraph]"
proof -
  have 1: "strip (text_buffer s) = [] \<longrightarrow> flush_text s = Inr (s\<lparr>text_buffer := []\<rparr>)"
    by (simp add: flush_text_eq flush_raises_def flush_text_blank)
  have t: "run_text (flushed_run s) = text_buffer s"
    by (simp add: flushed_run_def code_block_run_def inline_code_run_def plain_run_def)
  have 2: "strip (text_buffer s) \<noteq> [] \<and> flush_text s = Inr s' \<longrightarrow>
            (\<exists>p. current_paragraph s' = Some p
                 \<and> p_runs (par_at (doc s') p) = p_runs (flush_target s) @ [flushed_run s]
                 \<and> run_text (flushed_run s) = text_buffer s
                 \<and> text_buffer s' = [])"
  proof
    assume a: "strip (text_buffer s) \<noteq> [] \<and> flush_text s = Inr s'"
    then have s': "s' = flushed s" by (simp add: flush_text_Inr)
    from a have "strip (text_buffer s) \<noteq> []" ..
    from flush_text_writes [OF assms this] obtain p where
      "current_paragraph (flushed s) = Some p"
      "par_at (doc (flushed s)) p
               = (flush_target s)\<lparr>p_runs := p_runs (flush_target s) @ [flushed_run s],
                                    pPr := pPr (flush_target s) @ flushed_pPr s\<rparr>"
      by blast
    with t s' show "\<exists>p. current_paragraph s' = Some p
                 \<and> p_runs (par_at (doc s') p) = p_runs (flush_target s) @ [flushed_run s]
                 \<and> run_text (flushed_run s) = text_buffer s
                 \<and> text_buffer s' = []"
      by simp
  qed
  have 3: "(\<exists>s''. flush_text s = Inr s'')
            \<longleftrightarrow> strip (text_buffer s) = [] \<or> xml_compatible (text_buffer s)"
    by (auto simp: flush_text_eq flush_raises_def)
  have 4: "flush_text s = Inl e \<longrightarrow> e = ValueError"
    by (simp add: flush_text_Inl)
  have 5: "translate [StartTag ''p'' [], EndTag ''p''] = Inr [Para empty_paragraph]"
    by code_simp
  from 1 2 3 4 5 show ?thesis by (intro conjI)
qed

theorem flush_text_blank_or_untrimmed_witness:
  "parser_ok ((parser_init [])\<lparr>text_buffer := '' ''\<rparr>)
   \<and> strip (text_buffer ((parser_init [])\<lparr>text_buffer := '' ''\<rparr>)) = []
   \<and> flush_text ((parser_init [])\<lparr>text_buffer := '' ''\<rparr>) = Inr (parser_init [])
   \<and> parser_ok ((parser_init [])\<lparr>text_buffer := '' x ''\<rparr>)
   \<and> strip (text_buffer ((parser_init [])\<lparr>text_buffer := '' x ''\<rparr>)) \<noteq> []
   \<and> flush_text ((parser_init [])\<lparr>text_buffer := '' x ''\<rparr>)
       = Inr ((parser_init [])\<lparr>doc := [Para \<lparr>p_style = Default_Style,
                                               p_runs = [plain_run '' x ''], pPr = []\<rparr>],
                                 current_paragraph := Some (BodyPara 0)\<rparr>)
   \<and> (\<exists>p. current_paragraph ((parser_init [])\<lparr>doc := [Para \<lparr>p_style = Default_Style,
                                               p_runs = [plain_run '' x ''], pPr = []\<rparr>],
                                 current_paragraph := Some (BodyPara 0)\<rparr>) = Some p
          \<and> p_runs (par_at (doc ((parser_init [])\<lparr>doc := [Para \<lparr>p_style = Default_Style,
                                               p_runs = [plain_run '' x ''], pPr = []\<rparr>],
                                 current_paragraph := Some (BodyPara 0)\<rparr>)) p)
              = [plain_run '' x ''])"
proof -
  let ?a = "(parser_init [])\<lparr>text_buffer := '' ''\<rparr>"
  let ?b = "(parser_init [])\<lparr>text_buffer := '' x ''\<rparr>"
  let ?b' = "(parser_init [])\<lparr>doc := [Para \<lparr>p_style = Default_Style,
                                               p_runs = [plain_run '' x ''], pPr = []\<rparr>],
                                 current_paragraph := Some (BodyPara 0)\<rparr>"
  have oa: "parser_ok ?a" and ob: "parser_ok ?b" by code_simp+
  have ba: "strip (text_buffer ?a) = []" by code_simp
  have bb: "strip (text_buffer ?b) \<noteq> []" by code_simp
  have e: "?a\<lparr>text_buffer := []\<rparr> = parser_init []" by code_simp
  have fb: "flush_text ?b = Inr ?b'" by code_simp
  have tb: "p_runs (flush_target ?b) @ [flushed_run ?b] = [plain_run '' x '']" by code_simp
  from flush_text_blank_or_untrimmed [OF oa, of ?b' ValueError] ba e
  have 1: "flush_text ?a = Inr (parser_init [])"
    by simp
  from flush_text_blank_or_untrimmed [OF ob, of ?b' ValueError] bb fb
  have 2: "\<exists>p. current_paragraph ?b' = Some p
          \<and> p_runs (par_at (doc ?b') p) = [plain_run '' x '']"
    unfolding tb by blast
  from oa ba 1 ob bb fb 2 show ?thesis by (intro conjI)
qed




text \<open>
  C8.  Take any event stream that the parser handles without raising and
  any prefix of it, and let \<open>s1\<close> be the state after the prefix and
  \<open>s2\<close> the state after the whole stream.  Every table of the document of
  \<open>s1\<close> is still a table at the same place in the document of \<open>s2\<close> and has
  at least as many columns there.  A start-cell event handled with a current
  row sets the column count of the current table to the maximum of its old
  value and the cell index plus one.  A row start event handled while a table
  is open, the only place where a row starts, sets the cell index to 0; a
  \<^verbatim>\<open>tr\<close> start tag met while no table is open starts no row and changes
  nothing.
\<close>

theorem columns_only_grow:
  assumes "feed (parser_init d0) (es1 @ es2) = Inr s2"
  shows "\<exists>s1. feed (parser_init d0) es1 = Inr s1
          \<and> (\<forall>i t. i < length (doc s1) \<and> doc s1 ! i = Tbl t
                \<longrightarrow> (\<exists>t'. doc s2 ! i = Tbl t' \<and> columns t \<le> columns t'))
          \<and> (\<forall>r ti t s'. current_row s1 = Some r \<and> current_table s1 = Some ti
                  \<and> ti < length (doc s1) \<and> doc s1 ! ti = Tbl t \<and> start_cell s1 = Inr s'
                \<longrightarrow> columns (table_at (doc s') ti)
                      = max (columns t)
                            (Suc (case current_cell_index s1 of None \<Rightarrow> 0 | Some i \<Rightarrow> i)))
          \<and> (\<forall>ti. current_table s1 = Some ti
                \<longrightarrow> (\<exists>s'. handle_starttag s1 ''tr'' attrs = Inr s' \<and> current_cell_index s' = Some 0))
          \<and> (current_table s1 = None \<longrightarrow> handle_starttag s1 ''tr'' attrs = Inr s1)"
proof -
  from assms obtain s1 where 1: "feed (parser_init d0) es1 = Inr s1" and 2: "feed s1 es2 = Inr s2"
    by (auto simp: feed_append split: sum.splits)
  from ext_feed [OF 2]
  have a: "\<forall>i t. i < length (doc s1) \<and> doc s1 ! i = Tbl t
                \<longrightarrow> (\<exists>t'. doc s2 ! i = Tbl t' \<and> columns t \<le> columns t')"
    by (blast dest: ext_nth_table)
  have b: "\<forall>r ti t s'. current_row s1 = Some r \<and> current_table s1 = Some ti
                  \<and> ti < length (doc s1) \<and> doc s1 ! ti = Tbl t \<and> start_cell s1 = Inr s'
                \<longrightarrow> columns (table_at (doc s') ti)
                      = max (columns t)
                            (Suc (case current_cell_index s1 of None \<Rightarrow> 0 | Some i \<Rightarrow> i))"
    by (blast dest: start_cell_columns)
  have c: "\<forall>ti. current_table s1 = Some ti
                \<longrightarrow> (\<exists>s'. handle_starttag s1 ''tr'' attrs = Inr s' \<and> current_cell_index s' = Some 0)"
    by (simp add: starttag_tr)
  have d: "current_table s1 = None \<longrightarrow> handle_starttag s1 ''tr'' attrs = Inr s1"
    by (simp add: starttag_tr)
  from 1 a b c d show ?thesis by (intro exI [of _ s1] conjI)
qed

theorem columns_only_grow_witness:
  "\<exists>s1 s2 t t'.
      feed (parser_init [])
        ([StartTag ''table'' [], StartTag ''tr'' [], StartTag ''td'' [], Data ''a'', EndTag ''td'']
         @ [StartTag ''td'' []]) = Inr s2
    \<and> feed (parser_init [])
        [StartTag ''table'' [], StartTag ''tr'' [], StartTag ''td'' [], Data ''a'', EndTag ''td'']
        = Inr s1
    \<and> doc s1 ! 0 = Tbl t \<and> columns t = 1 \<and> doc s2 ! 0 = Tbl t' \<and> columns t' = 2
    \<and> columns t \<le> columns t'
    \<and> current_table s1 = Some 0
    \<and> (\<exists>s'. handle_starttag s1 ''tr'' [] = Inr s' \<and> current_cell_index s' = Some 0)"
proof -
  let ?es1 = "[StartTag ''table'' [], StartTag ''tr'' [], StartTag ''td'' [], Data ''a'', EndTag ''td'']"
  let ?es2 = "[StartTag ''td'' []]"
  have "case feed (parser_init []) (?es1 @ ?es2) of
          Inl _ \<Rightarrow> False
        | Inr s \<Rightarrow> (case doc s ! 0 of Tbl t \<Rightarrow> columns t = 2 | Para _ \<Rightarrow> False)"
    by code_simp
  then obtain s2 t2 where s2: "feed (parser_init []) (?es1 @ ?es2) = Inr s2"
    and t2: "doc s2 ! 0 = Tbl t2" "columns t2 = 2"
    by (auto split: sum.splits block.splits)
  have "case feed (parser_init []) ?es1 of
          Inl _ \<Rightarrow> False
        | Inr s \<Rightarrow> 0 < length (doc s) \<and> current_table s = Some 0 \<and>
                   (case doc s ! 0 of Tbl t \<Rightarrow> columns t = 1 | Para _ \<Rightarrow> False)"
    by code_simp
  then obtain s1 t1 where s1: "feed (parser_init []) ?es1 = Inr s1"
    and t1: "0 < length (doc s1)" "current_table s1 = Some 0" "doc s1 ! 0 = Tbl t1" "columns t1 = 1"
    by (auto split: sum.splits block.splits)
  from columns_only_grow [OF s2, of "[]"] s1
  have g: "\<forall>i t. i < length (doc s1) \<and> doc s1 ! i = Tbl t
                \<longrightarrow> (\<exists>t'. doc s2 ! i = Tbl t' \<and> columns t \<le> columns t')"
    and r: "\<forall>ti. current_table s1 = Some ti
                \<longrightarrow> (\<exists>s'. handle_starttag s1 ''tr'' [] = Inr s' \<and> current_cell_index s' = Some 0)"
    by auto
  from g t1 t2 have le: "columns t1 \<le> columns t2" by auto
  from r t1 have h: "\<exists>s'. handle_starttag s1 ''tr'' [] = Inr s' \<and> current_cell_index s' = Some 0"
    by blast
  show ?thesis
    apply (rule exI [of _ s1])
    apply (rule exI [of _ s2])
    apply (rule exI [of _ t1])
    apply (rule exI [of _ t2])
    apply (intro conjI)
            apply (rule s2)
           apply (rule s1)
          apply (rule t1(3))
         apply (rule t1(4))
        apply (rule t2(1))
       apply (rule t2(2))
      apply (rule le)
     apply (rule t1(2))
    apply (rule h)
    done
qed

text \<open>
  C10.  For every event stream and every starting document, translating
  the stream with every \<^verbatim>\<open>thead\<close> start and end tag replaced by a
  \<^verbatim>\<open>tbody\<close> tag, or with every \<^verbatim>\<open>thead\<close> start and end tag removed,
  gives the same result as translating the stream itself: the same document,
  or the same error.  The flag \<^verbatim>\<open>in_table_header\<close> is written and never
  read.
\<close>

theorem thead_makes_no_difference:
  "html_to_docx (map thead_to_tbody es) d0 = html_to_docx es d0
   \<and> html_to_docx (filter (\<lambda>e. \<not> is_thead e) es) d0 = html_to_docx es d0
   \<and> translate (map thead_to_tbody es) = translate es
   \<and> translate (filter (\<lambda>e. \<not> is_thead e) es) = translate es"
proof -
  have 1: "html_to_docx (map thead_to_tbody es) d = html_to_docx es d" for d
    by (rule html_to_docx_forget) (rule feed_thead_to_tbody [OF refl])
  have 2: "html_to_docx (filter (\<lambda>e. \<not> is_thead e) es) d = html_to_docx es d" for d
    by (rule html_to_docx_forget) (rule feed_without_thead [OF refl])
  from 1 2 show ?thesis by (simp add: translate_def)
qed

text \<open>
  C9 (amended).  After any events handled without raising,
  \<^verbatim>\<open>list_level\<close> is its starting value plus the number of list-container
  start events (\<^verbatim>\<open>ul\<close>, \<^verbatim>\<open>ol\<close>) minus the number of list-container end
  events handled; no handler guards the decrement, so it is negative as soon
  as the end events outnumber the start events.  The counter is never read:
  from any other starting value the same events give a state that differs at
  most in the fields nothing reads, and the same document (or the same
  error) after the last flush; and a list item start is a flush followed by
  a new paragraph of style "List Bullet", whatever the counter: it raises
  only when the flush does.
\<close>

theorem list_level_counts:
  assumes "feed s es = Inr s'"
  shows "list_level s' = list_level s + sum_list (map list_delta es)
       \<and> (\<exists>s''. feed (s\<lparr>list_level := k\<rparr>) es = Inr s'' \<and> forget s'' = forget s'
                \<and> map_sum id doc (flush_text s'') = map_sum id doc (flush_text s')
                \<and> list_level s'' = k + sum_list (map list_delta es))
       \<and> handle_starttag s ''li'' attrs
           = map_sum id
               (\<lambda>s0. s0\<lparr>doc := doc s0 @ [Para (empty_paragraph\<lparr>p_style := List_Bullet\<rparr>)],
                         current_paragraph := Some (BodyPara (length (doc s0)))\<rparr>)
               (flush_text s)"
proof -
  from assms have 1: "list_level s' = list_level s + sum_list (map list_delta es)"
    by (rule list_level_feed)
  have "forget (s\<lparr>list_level := k\<rparr>) = forget s" by simp
  from forget_feed_cong [OF this, of es] assms
  obtain s'' where s'': "feed (s\<lparr>list_level := k\<rparr>) es = Inr s''" "forget s'' = forget s'"
    by (cases "feed (s\<lparr>list_level := k\<rparr>) es") simp_all
  from list_level_feed [OF s''(1)] have l: "list_level s'' = k + sum_list (map list_delta es)"
    by simp
  from flush_text_forget_cong [OF s''(2)] s'' l
  have 2: "\<exists>s''. feed (s\<lparr>list_level := k\<rparr>) es = Inr s'' \<and> forget s'' = forget s'
                \<and> map_sum id doc (flush_text s'') = map_sum id doc (flush_text s')
                \<and> list_level s'' = k + sum_list (map list_delta es)"
    by blast
  have 3: "handle_starttag s ''li'' attrs
           = map_sum id
               (\<lambda>s0. s0\<lparr>doc := doc s0 @ [Para (empty_paragraph\<lparr>p_style := List_Bullet\<rparr>)],
                         current_paragraph := Some (BodyPara (length (doc s0)))\<rparr>)
               (flush_text s)"
    by (simp add: starttag_li after_flush_def flush_text_eq)
  from 1 2 3 show ?thesis by (intro conjI)
qed

theorem list_level_counts_witness:
  "\<exists>s'. feed (parser_init [])
           [StartTag ''ul'' [], StartTag ''li'' [], Data ''a'', EndTag ''li'', EndTag ''ul'',
            EndTag ''ul''] = Inr s'
        \<and> list_level s' = - 1"
proof -
  let ?es = "[StartTag ''ul'' [], StartTag ''li'' [], Data ''a'', EndTag ''li'', EndTag ''ul'',
            EndTag ''ul'']"
  have "\<not> isl (feed (parser_init []) ?es)" by code_simp
  then obtain s' where s': "feed (parser_init []) ?es = Inr s'"
    by (cases "feed (parser_init []) ?es") auto
  from list_level_counts [OF s', of 0 "[]"]
  have "list_level s' = list_level (parser_init []) + sum_list (map list_delta ?es)"
    by (rule conjunct1)
  then have "list_level s' = - 1" by (simp add: parser_init_def)
  with s' show ?thesis by blast
qed

theorem list_level_negative_example:
  "(case feed (parser_init []) [EndTag ''ul''] of Inl _ \<Rightarrow> 0 | Inr s \<Rightarrow> list_level s) = - 1"
  by code_simp

text \<open>
  C1 (amended).  When the translation of an event stream returns a
  document, every occurrence of a non-whitespace character delivered in a
  Data event (and every one the starting document held) is in the text of a
  run of that document, except the occurrences deleted by a start-cell event:
  \<^verbatim>\<open>cell.text = ''\<close> removes what the cell it opens already holds, which is
  the case when a second \<^verbatim>\<open>td\<close> or \<^verbatim>\<open>th\<close> start tag arrives for the same
  cell of the same row.  The characters of the document and the characters
  deleted that way add up to exactly the characters delivered; nothing else
  is dropped, neither the data buffered at the end of the stream nor the data
  inside unknown or ignored tags.  In particular a stream with no start-cell
  event loses no character.
\<close>

theorem no_text_lost_but_in_cleared_cells:
  assumes "html_to_docx es d0 = Inr d"
  shows "doc_chars d + discarded (parser_init d0) es = doc_chars d0 + sum_list (map data_chars es)
       \<and> ((\<forall>e\<in>set es. \<not> is_start_cell e)
            \<longrightarrow> doc_chars d = doc_chars d0 + sum_list (map data_chars es))"
proof -
  note 1 = html_to_docx_chars [OF assms]
  have "doc_chars d = doc_chars d0 + sum_list (map data_chars es)"
    if "\<forall>e\<in>set es. \<not> is_start_cell e"
    using 1 discarded_no_cells [OF that, of "parser_init d0"] by simp
  with 1 show ?thesis by blast
qed

theorem no_text_lost_but_in_cleared_cells_witness:
  "html_to_docx [StartTag ''p'' [], Data ''a b'', StartTag ''blink'' [], Data ''c'', EndTag ''blink'']
                []
     = Inr [Para \<lparr>p_style = Default_Style, p_runs = [plain_run ''a bc''], pPr = []\<rparr>]
   \<and> filter is_start_cell
        [StartTag ''p'' [], Data ''a b'', StartTag ''blink'' [], Data ''c'', EndTag ''blink''] = []
   \<and> doc_chars [Para \<lparr>p_style = Default_Style, p_runs = [plain_run ''a bc''], pPr = []\<rparr>]
       = {#CHR ''a'', CHR ''b'', CHR ''c''#}"
proof -
  let ?es = "[StartTag ''p'' [], Data ''a b'', StartTag ''blink'' [], Data ''c'', EndTag ''blink'']"
  let ?d = "[Para \<lparr>p_style = Default_Style, p_runs = [plain_run ''a bc''], pPr = []\<rparr>]"
  have h: "html_to_docx ?es [] = Inr ?d" by code_simp
  have n: "\<forall>e\<in>set ?es. \<not> is_start_cell e" by simp
  from no_text_lost_but_in_cleared_cells [OF h] n
  have "doc_chars ?d = doc_chars [] + sum_list (map data_chars ?es)" by blast
  also have "\<dots> = {#CHR ''a'', CHR ''b'', CHR ''c''#}"
    by (simp add: nonws_def isspace_def)
  finally have "doc_chars ?d = {#CHR ''a'', CHR ''b'', CHR ''c''#}" .
  moreover have "filter is_start_cell ?es = []" by simp
  ultimately show ?thesis using h by (intro conjI)
qed

theorem text_lost_in_reopened_cell:
  "translate [StartTag ''table'' [], StartTag ''tr'' [], StartTag ''td'' [],
              StartTag ''code'' [], Data ''a'', EndTag ''code'', StartTag ''td'' []]
     = Inr [Tbl \<lparr>tbl_style = Some ''Table Grid'', columns = 1, rows = [[cleared_cell]]\<rparr>]
   \<and> doc_chars [Tbl \<lparr>tbl_style = Some ''Table Grid'', columns = 1, rows = [[cleared_cell]]\<rparr>]
       = {#}"
proof -
  have "translate [StartTag ''table'' [], StartTag ''tr'' [], StartTag ''td'' [],
              StartTag ''code'' [], Data ''a'', EndTag ''code'', StartTag ''td'' []]
     = Inr [Tbl \<lparr>tbl_style = Some ''Table Grid'', columns = 1, rows = [[cleared_cell]]\<rparr>]"
    by code_simp
  moreover
  have "doc_chars [Tbl \<lparr>tbl_style = Some ''Table Grid'', columns = 1, rows = [[cleared_cell]]\<rparr>]
       = {#}"
    by (simp add: table_chars_def)
  ultimately show ?thesis by (intro conjI)
qed




end
